theory Spec2Isabelle
  imports Main "HOL-Library.Word" "HOL-Library.Sublist" "HOL-Library.Multiset"
begin

section \<open>Sparkle::Event: a shallow embedding of include/Sparkle/Event.h\<close>

subsection \<open>Pointers, control blocks and the world outside the event\<close>

text \<open>
  The registry is keyed by \<^verbatim>\<open>void *\<close>: an address is a 64-bit word, \<^verbatim>\<open>nullptr\<close> is 0 and
  the key of object-less subscriptions is \<^verbatim>\<open>reinterpret_cast<void *>(-1)\<close>.
  A \<^verbatim>\<open>shared_ptr\<close> or \<^verbatim>\<open>weak_ptr\<close> is the pair of its control block (absent for an empty
  pointer) and the address it stores; liveness is a property of the control block, the
  key is the stored address.
\<close>

type_synonym addr = "64 word"
type_synonym ctrl = nat

definition nullptr :: addr where
  "nullptr = 0"

definition StandaloneCallbackKey :: addr where
  "StandaloneCallbackKey = - 1"

datatype shared_ptr = SharedPtr (sp_owner: "ctrl option") (sp_get: addr)
datatype weak_ptr = WeakPtr (wp_owner: "ctrl option") (wp_stored: addr)

text \<open>
  The world outside the event: the control blocks whose last owner is gone, the state the
  user callbacks act on, and a ghost trace of the user callbacks invoked, each with the
  argument value it received.
\<close>

record ('a, 'u) world =
  expired :: "ctrl set"
  user :: 'u
  trace :: "(nat \<times> 'a) list"

definition weak_expired :: "('a, 'u) world \<Rightarrow> weak_ptr \<Rightarrow> bool" where
  "weak_expired w weak = (case wp_owner weak of None \<Rightarrow> True | Some c \<Rightarrow> c \<in> expired w)"

definition weak_lock :: "('a, 'u) world \<Rightarrow> weak_ptr \<Rightarrow> shared_ptr" where
  "weak_lock w weak =
     (if weak_expired w weak then SharedPtr None nullptr
      else SharedPtr (wp_owner weak) (wp_stored weak))"

text \<open>\<^verbatim>\<open>std::weak_ptr<T>(shared)\<close> and the conversion of a \<^verbatim>\<open>shared_ptr\<close> to \<^verbatim>\<open>bool\<close>.\<close>

definition weak_of :: "shared_ptr \<Rightarrow> weak_ptr" where
  "weak_of shared = WeakPtr (sp_owner shared) (sp_get shared)"

definition sp_bool :: "shared_ptr \<Rightarrow> bool" where
  "sp_bool shared = (sp_get shared \<noteq> nullptr)"

text \<open>
  A user callback (a \<^verbatim>\<open>std::function<void(Args...)>\<close> or a member function of the bound
  object): a label that the ghost trace records, its effect on the user state, and the
  control blocks whose last owner it releases. A released block stays expired: the set
  only grows. A user callback neither throws nor calls back into the event that is
  raising it; the source defines neither (Raise holds iterators into the table while the
  callbacks run).
\<close>

datatype ('a, 'u) Callback =
  Callback (label: nat) (body: "'a \<Rightarrow> 'u \<Rightarrow> 'u") (releases: "'a \<Rightarrow> 'u \<Rightarrow> ctrl set")

definition call :: "('a, 'u) Callback \<Rightarrow> 'a \<Rightarrow> ('a, 'u) world \<Rightarrow> ('a, 'u) world" where
  "call f args w =
     w\<lparr>expired := expired w \<union> releases f args (user w),
       user := body f args (user w),
       trace := trace w @ [(label f, args)]\<rparr>"

subsection \<open>Lifecycle callbacks: the five closures of EventBinder::Bind\<close>

text \<open>
  \<^verbatim>\<open>LifecycleCallback = std::function<bool(Args...)>\<close>. Each constructor is one lambda of
  the source with its captures; \<open>invoke\<close> is its body. The result is true when the
  callback stays registered.
\<close>

datatype ('a, 'u) LifecycleCallback =
    PtrCallback "('a, 'u) Callback" addr bool
  | WeakCallback weak_ptr "('a, 'u) Callback" bool
  | WeakMember weak_ptr "('a, 'u) Callback" bool
  | PtrMember addr "('a, 'u) Callback" bool
  | Standalone "('a, 'u) Callback" bool

fun invoke :: "('a, 'u) LifecycleCallback \<Rightarrow> 'a \<Rightarrow> ('a, 'u) world \<Rightarrow> bool \<times> ('a, 'u) world" where
  "invoke (PtrCallback f t bindOnce) args w = (\<not> bindOnce, call f args w)"
| "invoke (WeakCallback weak f bindOnce) args w =
     (if \<not> weak_expired w weak then (\<not> bindOnce, call f args w) else (False, w))"
| "invoke (WeakMember weak f bindOnce) args w =
     (if sp_bool (weak_lock w weak) then (\<not> bindOnce, call f args w) else (False, w))"
| "invoke (PtrMember t f bindOnce) args w = (\<not> bindOnce, call f args w)"
| "invoke (Standalone cb bindOnce) args w = (\<not> bindOnce, call cb args w)"

subsection \<open>EventBinder\<close>

text \<open>
  \<^verbatim>\<open>Binds\<close> is an \<^verbatim>\<open>unordered_map<void *, vector<LifecycleCallback>>\<close>: an association list
  whose order is the iteration order of the table. A new key is put last; the statements
  about Raise hold for every order of the table. \<^verbatim>\<open>assert\<close> is modelled as compiled in (no NDEBUG): a
  failed assertion is the error value.

  The five private \<^verbatim>\<open>Bind\<close> overloads take the \<^verbatim>\<open>bindOnce\<close> flag; the public \<^verbatim>\<open>Bind\<close> and
  \<^verbatim>\<open>BindOnce\<close> overloads of the binder and of the event call them with false and true, the
  \<^verbatim>\<open>shared_ptr\<close> ones after converting with \<open>weak_of\<close>. (\<^verbatim>\<open>BindOnce(Callback, shared_ptr)\<close>
  calls a three-argument \<^verbatim>\<open>BindOnce\<close> that does not exist, so it cannot be instantiated.)
\<close>

type_synonym ('a, 'u) Binds = "(addr \<times> ('a, 'u) LifecycleCallback list) list"

datatype error = AssertionFailed

fun InternalBind ::
  "('a, 'u) LifecycleCallback \<Rightarrow> addr \<Rightarrow> ('a, 'u) Binds \<Rightarrow> ('a, 'u) Binds" where
  "InternalBind bound t [] = [(t, [bound])]"
| "InternalBind bound t ((k, v) # its) =
     (if k = t then (k, v @ [bound]) # its else (k, v) # InternalBind bound t its)"

definition Bind_Callback_ptr ::
  "('a, 'u) Callback \<Rightarrow> addr \<Rightarrow> bool \<Rightarrow> ('a, 'u) Binds \<Rightarrow> error + ('a, 'u) Binds" where
  "Bind_Callback_ptr f t bindOnce b =
     (if t = nullptr then Inl AssertionFailed
      else Inr (InternalBind (PtrCallback f t bindOnce) t b))"

definition Bind_Callback_weak ::
  "('a, 'u) Callback \<Rightarrow> weak_ptr \<Rightarrow> bool \<Rightarrow> ('a, 'u) world \<Rightarrow> ('a, 'u) Binds \<Rightarrow> ('a, 'u) Binds" where
  "Bind_Callback_weak f weak bindOnce w b =
     (let t = weak_lock w weak in
      if sp_bool t then InternalBind (WeakCallback weak f bindOnce) (sp_get t) b else b)"

definition Bind_member_weak ::
  "('a, 'u) Callback \<Rightarrow> weak_ptr \<Rightarrow> bool \<Rightarrow> ('a, 'u) world \<Rightarrow> ('a, 'u) Binds \<Rightarrow> ('a, 'u) Binds" where
  "Bind_member_weak f weak bindOnce w b =
     (let t = weak_lock w weak in
      if sp_bool t then InternalBind (WeakMember weak f bindOnce) (sp_get t) b else b)"

definition Bind_member_ptr ::
  "('a, 'u) Callback \<Rightarrow> addr \<Rightarrow> bool \<Rightarrow> ('a, 'u) Binds \<Rightarrow> error + ('a, 'u) Binds" where
  "Bind_member_ptr f t bindOnce b =
     (if t = nullptr then Inl AssertionFailed
      else Inr (InternalBind (PtrMember t f bindOnce) t b))"

definition Bind_standalone ::
  "('a, 'u) Callback \<Rightarrow> bool \<Rightarrow> ('a, 'u) Binds \<Rightarrow> ('a, 'u) Binds" where
  "Bind_standalone cb bindOnce b = InternalBind (Standalone cb bindOnce) StandaloneCallbackKey b"

definition RemoveAll :: "('a, 'u) Binds \<Rightarrow> ('a, 'u) Binds" where
  "RemoveAll b = []"

definition IsBound :: "addr \<Rightarrow> ('a, 'u) Binds \<Rightarrow> error + bool" where
  "IsBound t b = (if t = nullptr then Inl AssertionFailed else Inr (map_of b t \<noteq> None))"

definition IsBound_weak :: "weak_ptr \<Rightarrow> ('a, 'u) world \<Rightarrow> ('a, 'u) Binds \<Rightarrow> error + bool" where
  "IsBound_weak weak w b =
     (let shared = weak_lock w weak in
      if sp_bool shared then IsBound (sp_get shared) b else Inr False)"

definition IsBound_shared :: "shared_ptr \<Rightarrow> ('a, 'u) Binds \<Rightarrow> error + bool" where
  "IsBound_shared shared b = (if sp_bool shared then IsBound (sp_get shared) b else Inr False)"

text \<open>\<^verbatim>\<open>Binds.erase(it)\<close> for the iterator \<^verbatim>\<open>Binds.find(t)\<close> returned: one entry goes.\<close>

fun erase :: "addr \<Rightarrow> ('a, 'u) Binds \<Rightarrow> ('a, 'u) Binds" where
  "erase t [] = []"
| "erase t ((k, v) # its) = (if k = t then its else (k, v) # erase t its)"

definition Remove :: "addr \<Rightarrow> ('a, 'u) Binds \<Rightarrow> error + (bool \<times> ('a, 'u) Binds)" where
  "Remove t b =
     (if t = nullptr then Inl AssertionFailed
      else (case map_of b t of
              Some v \<Rightarrow> Inr (True, erase t b)
            | None \<Rightarrow> Inr (False, b)))"

definition Remove_weak ::
  "weak_ptr \<Rightarrow> ('a, 'u) world \<Rightarrow> ('a, 'u) Binds \<Rightarrow> error + (bool \<times> ('a, 'u) Binds)" where
  "Remove_weak ptr w b =
     (let shared = weak_lock w ptr in
      if sp_bool shared then Remove (sp_get shared) b else Inr (False, b))"

definition Remove_shared :: "shared_ptr \<Rightarrow> ('a, 'u) Binds \<Rightarrow> error + (bool \<times> ('a, 'u) Binds)" where
  "Remove_shared ptr b = (if sp_bool ptr then Remove (sp_get ptr) b else Inr (False, b))"

subsection \<open>Event\<close>

text \<open>
  \<^verbatim>\<open>Raise(Args... args)\<close> calls every lifecycle callback as
  \<^verbatim>\<open>cb(std::forward<Args>(args)...)\<close>: the parameter of the callee is move-constructed from
  \<^verbatim>\<open>args\<close>, which is left in its moved-from state for the next call. \<open>moved\<close> gives that
  state: the identity for a trivially copyable type or a reference, the null pointer for a
  \<^verbatim>\<open>unique_ptr\<close>. \<open>erase_remove_if\<close> is the erase-remove pass over one vector (the predicate
  runs front to back, the survivors keep their order), \<open>Raise_loop\<close> the loop over the
  table.
\<close>

fun erase_remove_if ::
  "('a \<Rightarrow> 'a) \<Rightarrow> ('a, 'u) LifecycleCallback list \<Rightarrow> 'a \<Rightarrow> ('a, 'u) world \<Rightarrow>
   ('a, 'u) LifecycleCallback list \<times> 'a \<times> ('a, 'u) world" where
  "erase_remove_if moved [] args w = ([], args, w)"
| "erase_remove_if moved (cb # cbs) args w =
     (case invoke cb args w of (alive, w1) \<Rightarrow>
        (case erase_remove_if moved cbs (moved args) w1 of (rest, args', w2) \<Rightarrow>
           (if alive then cb # rest else rest, args', w2)))"

fun Raise_loop ::
  "('a \<Rightarrow> 'a) \<Rightarrow> ('a, 'u) Binds \<Rightarrow> 'a \<Rightarrow> ('a, 'u) world \<Rightarrow>
   ('a, 'u) Binds \<times> 'a \<times> ('a, 'u) world" where
  "Raise_loop moved [] args w = ([], args, w)"
| "Raise_loop moved ((k, functionVector) # its) args w =
     (case erase_remove_if moved functionVector args w of (fv, args1, w1) \<Rightarrow>
        (case Raise_loop moved its args1 w1 of (its', args2, w2) \<Rightarrow>
           (if List.null fv then its' else (k, fv) # its', args2, w2)))"

definition Raise ::
  "('a \<Rightarrow> 'a) \<Rightarrow> 'a \<Rightarrow> ('a, 'u) Binds \<times> ('a, 'u) world \<Rightarrow> ('a, 'u) Binds \<times> ('a, 'u) world" where
  "Raise moved args bw =
     (case bw of (b, w) \<Rightarrow>
        (case Raise_loop moved b args w of (b', args', w') \<Rightarrow> (b', w')))"

text \<open>
  \<^verbatim>\<open>int Size()\<close> and \<^verbatim>\<open>int CallbackCount()\<close> convert a \<^verbatim>\<open>size_t\<close> to a 32-bit \<^verbatim>\<open>int\<close>: the
  value modulo \<open>2 ^ 32\<close>, read as signed (what C++20 requires and the compilers did before). In \<^verbatim>\<open>total += pair.second.size()\<close> the sum is
  formed in \<^verbatim>\<open>size_t\<close> and converted back, so \<^verbatim>\<open>total\<close> is a 32-bit word that wraps.
\<close>

definition Size :: "('a, 'u) Binds \<Rightarrow> int" where
  "Size b = sint (word_of_nat (length b) :: 32 word)"

definition CallbackCount :: "('a, 'u) Binds \<Rightarrow> int" where
  "CallbackCount b =
     sint (foldl (\<lambda>total pair. total + word_of_nat (length (snd pair))) (0 :: 32 word) b)"

subsection \<open>Moved-from states of the argument types\<close>

text \<open>
  Two instances of \<open>moved\<close>: a trivially copyable argument (an \<^verbatim>\<open>int\<close>) or a reference is
  left as it was; a \<^verbatim>\<open>std::unique_ptr\<close> (\<open>None\<close> is the null pointer) is null after the move.
\<close>

definition moved_trivial :: "'a \<Rightarrow> 'a" where
  "moved_trivial args = args"

definition moved_unique_ptr :: "'v option \<Rightarrow> 'v option" where
  "moved_unique_ptr args = None"

subsection \<open>Notions the properties are stated with\<close>

text \<open>The captures of a lifecycle callback, and whether its liveness check passes in a world.\<close>

fun callback_of :: "('a, 'u) LifecycleCallback \<Rightarrow> ('a, 'u) Callback" where
  "callback_of (PtrCallback f t bindOnce) = f"
| "callback_of (WeakCallback weak f bindOnce) = f"
| "callback_of (WeakMember weak f bindOnce) = f"
| "callback_of (PtrMember t f bindOnce) = f"
| "callback_of (Standalone cb bindOnce) = cb"

fun bindOnce_of :: "('a, 'u) LifecycleCallback \<Rightarrow> bool" where
  "bindOnce_of (PtrCallback f t bindOnce) = bindOnce"
| "bindOnce_of (WeakCallback weak f bindOnce) = bindOnce"
| "bindOnce_of (WeakMember weak f bindOnce) = bindOnce"
| "bindOnce_of (PtrMember t f bindOnce) = bindOnce"
| "bindOnce_of (Standalone cb bindOnce) = bindOnce"

fun alive :: "('a, 'u) world \<Rightarrow> ('a, 'u) LifecycleCallback \<Rightarrow> bool" where
  "alive w (PtrCallback f t bindOnce) = True"
| "alive w (WeakCallback weak f bindOnce) = (\<not> weak_expired w weak)"
| "alive w (WeakMember weak f bindOnce) = sp_bool (weak_lock w weak)"
| "alive w (PtrMember t f bindOnce) = True"
| "alive w (Standalone cb bindOnce) = True"

definition label_of :: "('a, 'u) LifecycleCallback \<Rightarrow> nat" where
  "label_of cb = label (callback_of cb)"

definition kept :: "('a, 'u) world \<Rightarrow> ('a, 'u) LifecycleCallback \<Rightarrow> bool" where
  "kept w cb = (alive w cb \<and> \<not> bindOnce_of cb)"

text \<open>All registered callbacks in the order Raise visits them, and those carrying a label.\<close>

definition callbacks :: "('a, 'u) Binds \<Rightarrow> ('a, 'u) LifecycleCallback list" where
  "callbacks b = concat (map snd b)"

definition subscriptions :: "nat \<Rightarrow> ('a, 'u) Binds \<Rightarrow> ('a, 'u) LifecycleCallback list" where
  "subscriptions l b = filter (\<lambda>cb. label_of cb = l) (callbacks b)"

definition sequence_of :: "('a, 'u) Binds \<Rightarrow> addr \<Rightarrow> ('a, 'u) LifecycleCallback list" where
  "sequence_of b k = (case map_of b k of None \<Rightarrow> [] | Some v \<Rightarrow> v)"

text \<open>How often the user callback labelled \<open>l\<close> has run, and the labels run since a trace.\<close>

definition invocations :: "nat \<Rightarrow> ('a, 'u) world \<Rightarrow> nat" where
  "invocations l w = count_list (map fst (trace w)) l"

definition invoked_since :: "('a, 'u) world \<Rightarrow> ('a, 'u) world \<Rightarrow> nat list" where
  "invoked_since w w' = map fst (drop (length (trace w)) (trace w'))"

text \<open>
  Between two calls on the event the program around it runs: owners are released and the
  user state changes. A run of raises interleaves such steps with \<open>Raise\<close>.
\<close>

definition env_step :: "ctrl set \<Rightarrow> ('u \<Rightarrow> 'u) \<Rightarrow> ('a, 'u) world \<Rightarrow> ('a, 'u) world" where
  "env_step released g w = w\<lparr>expired := expired w \<union> released, user := g (user w)\<rparr>"

fun Raises ::
  "('a \<Rightarrow> 'a) \<Rightarrow> (ctrl set \<times> ('u \<Rightarrow> 'u) \<times> 'a) list \<Rightarrow>
   ('a, 'u) Binds \<times> ('a, 'u) world \<Rightarrow> ('a, 'u) Binds \<times> ('a, 'u) world" where
  "Raises moved [] bw = bw"
| "Raises moved ((released, g, args) # rs) bw =
     Raises moved rs (Raise moved args (fst bw, env_step released g (snd bw)))"

text \<open>
  The registries the public operations can build, starting from a new event. An insertion
  may rehash the table, which permutes the order of iteration.
\<close>

inductive reachable :: "('a, 'u) Binds \<Rightarrow> bool" where
  new_event: "reachable []"
| bind_callback_ptr:
    "reachable b \<Longrightarrow> Bind_Callback_ptr f t bindOnce b = Inr b' \<Longrightarrow> reachable b'"
| bind_callback_weak: "reachable b \<Longrightarrow> reachable (Bind_Callback_weak f weak bindOnce w b)"
| bind_member_weak: "reachable b \<Longrightarrow> reachable (Bind_member_weak f weak bindOnce w b)"
| bind_member_ptr:
    "reachable b \<Longrightarrow> Bind_member_ptr f t bindOnce b = Inr b' \<Longrightarrow> reachable b'"
| bind_standalone: "reachable b \<Longrightarrow> reachable (Bind_standalone cb bindOnce b)"
| remove: "reachable b \<Longrightarrow> Remove t b = Inr (r, b') \<Longrightarrow> reachable b'"
| remove_weak: "reachable b \<Longrightarrow> Remove_weak ptr w b = Inr (r, b') \<Longrightarrow> reachable b'"
| remove_shared: "reachable b \<Longrightarrow> Remove_shared shared b = Inr (r, b') \<Longrightarrow> reachable b'"
| remove_all: "reachable b \<Longrightarrow> reachable (RemoveAll b)"
| raise: "reachable b \<Longrightarrow> Raise moved args (b, w) = (b', w') \<Longrightarrow> reachable b'"
| rehash: "reachable b \<Longrightarrow> mset b' = mset b \<Longrightarrow> reachable b'"

text \<open>The invariant of the table: one entry per key, and no entry with an empty vector.\<close>

definition no_dangling :: "('a, 'u) Binds \<Rightarrow> bool" where
  "no_dangling b = (distinct (map fst b) \<and> list_all (\<lambda>p. snd p \<noteq> []) b)"

text \<open>Small fixtures: the \<^verbatim>\<open>TestObject::Add\<close> of the tests, a callback that releases the
  last owner of an object, a callback that only shows in the trace, and a world with every
  object alive.\<close>

definition Add :: "nat \<Rightarrow> (int, int) Callback" where
  "Add l = Callback l (\<lambda>v counter. counter + v) (\<lambda>v counter. {})"

definition Release :: "nat \<Rightarrow> ctrl \<Rightarrow> ('a, 'u) Callback" where
  "Release l c = Callback l (\<lambda>v u. u) (\<lambda>v u. {c})"

definition Observe :: "nat \<Rightarrow> ('a, 'u) Callback" where
  "Observe l = Callback l (\<lambda>v u. u) (\<lambda>v u. {})"

definition world0 :: "('a, int) world" where
  "world0 = \<lparr>expired = {}, user = 0, trace = []\<rparr>"

section \<open>Properties\<close>

subsection \<open>The registry as a table with one entry per key\<close>

lemma set_erase_subset: "set (erase t b) \<subseteq> set b"
  by (induction b) (auto split: if_splits)

lemma erase_key_gone: "distinct (map fst b) \<Longrightarrow> t \<notin> fst ` set (erase t b)"
proof (induction b)
  case Nil
  then show ?case by simp
next
  case (Cons p b)
  obtain k v where p: "p = (k, v)" by (cases p)
  show ?case
  proof (cases "k = t")
    case True
    with Cons.prems p show ?thesis by (auto simp: image_iff)
  next
    case False
    with Cons p show ?thesis by auto
  qed
qed

lemma map_of_erase_other: "k \<noteq> t \<Longrightarrow> map_of (erase t b) k = map_of b k"
  by (induction b) auto

lemma map_of_erase: "distinct (map fst b) \<Longrightarrow> map_of (erase t b) = (map_of b)(t := None)"
  using erase_key_gone [of b t]
  by (auto simp: fun_eq_iff map_of_erase_other map_of_eq_None_iff)

lemma erase_absent: "map_of b t = None \<Longrightarrow> erase t b = b"
  by (induction b) (auto split: if_splits)

lemma sint_of_nat_small: "n < 2 ^ 31 \<Longrightarrow> sint (word_of_nat n :: 32 word) = int n"
  by (simp add: signed_of_nat signed_take_bit_int_eq_self)

subsection \<open>One lifecycle callback\<close>

lemma invoke_eq:
  "invoke cb args w =
     (if alive w cb then (\<not> bindOnce_of cb, call (callback_of cb) args w) else (False, w))"
  by (cases cb) simp_all

lemma expired_call: "expired (call f args w) = expired w \<union> releases f args (user w)"
  by (simp add: call_def)

lemma trace_call: "trace (call f args w) = trace w @ [(label f, args)]"
  by (simp add: call_def)

lemma alive_mono: "expired w \<subseteq> expired w' \<Longrightarrow> alive w' cb \<Longrightarrow> alive w cb"
  by (cases cb) (auto simp: weak_expired_def weak_lock_def sp_bool_def split: option.splits if_splits)

lemma kept_mono: "expired w \<subseteq> expired w' \<Longrightarrow> kept w' cb \<Longrightarrow> kept w cb"
  by (auto simp: kept_def dest: alive_mono)

lemma subseq_filter_mono:
  "(\<And>x. x \<in> set xs \<Longrightarrow> P x \<Longrightarrow> Q x) \<Longrightarrow> subseq (filter P xs) (filter Q xs)"
  by (induction xs) (auto intro: subseq_Cons')

subsection \<open>The pass over one vector, and the loop over the table\<close>

text \<open>
  What survives a pass lies between the callbacks kept in the world after it and those kept
  in the world before it, and so do the user callbacks it runs (a released object stays
  released). Both bounds keep the order of the vector.
\<close>

lemma erase_remove_if_sandwich:
  "erase_remove_if moved cbs args w = (rest, args', w') \<Longrightarrow>
     expired w \<subseteq> expired w' \<and>
     subseq rest (filter (kept w) cbs) \<and>
     subseq (filter (kept w') cbs) rest \<and>
     (\<exists>delta. trace w' = trace w @ delta \<and>
        subseq (map fst delta) (map label_of (filter (alive w) cbs)) \<and>
        subseq (map label_of (filter (alive w') cbs)) (map fst delta))"
proof (induction cbs arbitrary: args w rest args' w')
  case Nil
  then show ?case by simp
next
  case (Cons cb cbs)
  obtain al w1 where inv: "invoke cb args w = (al, w1)" by (cases "invoke cb args w")
  obtain r2 a2 w2 where rec: "erase_remove_if moved cbs (moved args) w1 = (r2, a2, w2)"
    by (cases "erase_remove_if moved cbs (moved args) w1")
  from Cons.prems inv rec have res: "rest = (if al then cb # r2 else r2)" "w' = w2"
    by auto
  from Cons.IH [OF rec] obtain delta where
    ih: "expired w1 \<subseteq> expired w2" "subseq r2 (filter (kept w1) cbs)"
        "subseq (filter (kept w2) cbs) r2" "trace w2 = trace w1 @ delta"
        "subseq (map fst delta) (map label_of (filter (alive w1) cbs))"
        "subseq (map label_of (filter (alive w2) cbs)) (map fst delta)"
    by blast
  have e1: "expired w \<subseteq> expired w1"
    using inv by (auto simp: invoke_eq expired_call split: if_splits)
  have up1: "subseq (filter (kept w1) cbs) (filter (kept w) cbs)"
    by (rule subseq_filter_mono) (rule kept_mono [OF e1])
  have up2: "subseq (map label_of (filter (alive w1) cbs)) (map label_of (filter (alive w) cbs))"
    by (rule subseq_map, rule subseq_filter_mono) (rule alive_mono [OF e1])
  show ?case
  proof (cases "alive w cb")
    case True
    with inv have al: "al = (\<not> bindOnce_of cb)" and w1: "w1 = call (callback_of cb) args w"
      by (auto simp: invoke_eq)
    have tr: "trace w2 = trace w @ ((label_of cb, args) # delta)"
      using ih(4) w1 by (simp add: trace_call label_of_def)
    have k: "kept w cb = al" using True al by (simp add: kept_def)
    have a: "subseq rest (filter (kept w) (cb # cbs))"
      using res(1) k subseq_order.trans [OF ih(2) up1] by auto
    have b: "subseq (filter (kept w') (cb # cbs)) rest"
      using res k ih(3) kept_mono [OF subset_trans [OF e1 ih(1)], of cb]
      by (auto intro: subseq_Cons')
    have c: "subseq (map fst ((label_of cb, args) # delta)) (map label_of (filter (alive w) (cb # cbs)))"
      using True subseq_order.trans [OF ih(5) up2] by simp
    have d: "subseq (map label_of (filter (alive w') (cb # cbs))) (map fst ((label_of cb, args) # delta))"
      using res(2) ih(6) by (auto intro: subseq_Cons')
    from a b c d tr res(2) ih(1) e1 show ?thesis by blast
  next
    case False
    with inv have al: "\<not> al" and w1: "w1 = w" by (auto simp: invoke_eq)
    have dead': "\<not> alive w' cb"
      using False alive_mono [of w w' cb] ih(1) res(2) w1 by auto
    have a: "subseq rest (filter (kept w) (cb # cbs))"
      using res(1) al False ih(2) w1 by (simp add: kept_def)
    have b: "subseq (filter (kept w') (cb # cbs)) rest"
      using res al dead' ih(3) by (simp add: kept_def)
    have c: "subseq (map fst delta) (map label_of (filter (alive w) (cb # cbs)))"
      using False ih(5) w1 by simp
    have d: "subseq (map label_of (filter (alive w') (cb # cbs))) (map fst delta)"
      using dead' res(2) ih(6) by simp
    from a b c d ih(4) ih(1) res(2) w1 show ?thesis by blast
  qed
qed


lemma callbacks_Nil [simp]: "callbacks [] = []"
  by (simp add: callbacks_def)

lemma callbacks_Cons [simp]: "callbacks ((k, v) # b) = v @ callbacks b"
  by (simp add: callbacks_def)

lemma Raise_loop_sandwich:
  "Raise_loop moved b args w = (b', args', w') \<Longrightarrow>
     expired w \<subseteq> expired w' \<and>
     subseq (callbacks b') (filter (kept w) (callbacks b)) \<and>
     subseq (filter (kept w') (callbacks b)) (callbacks b') \<and>
     (\<exists>delta. trace w' = trace w @ delta \<and>
        subseq (map fst delta) (map label_of (filter (alive w) (callbacks b))) \<and>
        subseq (map label_of (filter (alive w') (callbacks b))) (map fst delta))"
proof (induction b arbitrary: args w b' args' w')
  case Nil
  then show ?case by simp
next
  case (Cons p its)
  obtain k v where p: "p = (k, v)" by (cases p)
  obtain fv a1 w1 where eri: "erase_remove_if moved v args w = (fv, a1, w1)"
    by (cases "erase_remove_if moved v args w")
  obtain its' a2 w2 where rec: "Raise_loop moved its a1 w1 = (its', a2, w2)"
    by (cases "Raise_loop moved its a1 w1")
  from Cons.prems p eri rec have res: "b' = (if List.null fv then its' else (k, fv) # its')" "w' = w2"
    by auto
  have cb': "callbacks b' = fv @ callbacks its'"
    using res(1) by auto
  from erase_remove_if_sandwich [OF eri] obtain d1 where
    h: "expired w \<subseteq> expired w1" "subseq fv (filter (kept w) v)"
       "subseq (filter (kept w1) v) fv" "trace w1 = trace w @ d1"
       "subseq (map fst d1) (map label_of (filter (alive w) v))"
       "subseq (map label_of (filter (alive w1) v)) (map fst d1)"
    by blast
  from Cons.IH [OF rec] obtain d2 where
    ih: "expired w1 \<subseteq> expired w2" "subseq (callbacks its') (filter (kept w1) (callbacks its))"
        "subseq (filter (kept w2) (callbacks its)) (callbacks its')" "trace w2 = trace w1 @ d2"
        "subseq (map fst d2) (map label_of (filter (alive w1) (callbacks its)))"
        "subseq (map label_of (filter (alive w2) (callbacks its))) (map fst d2)"
    by blast
  have k1: "subseq (filter (kept w1) (callbacks its)) (filter (kept w) (callbacks its))"
    by (rule subseq_filter_mono) (rule kept_mono [OF h(1)])
  have k2: "subseq (filter (kept w2) v) (filter (kept w1) v)"
    by (rule subseq_filter_mono) (rule kept_mono [OF ih(1)])
  have a1: "subseq (map label_of (filter (alive w1) (callbacks its)))
              (map label_of (filter (alive w) (callbacks its)))"
    by (rule subseq_map, rule subseq_filter_mono) (rule alive_mono [OF h(1)])
  have a2: "subseq (map label_of (filter (alive w2) v)) (map label_of (filter (alive w1) v))"
    by (rule subseq_map, rule subseq_filter_mono) (rule alive_mono [OF ih(1)])
  have A: "subseq (callbacks b') (filter (kept w) (callbacks (p # its)))"
    using list_emb_append_mono [OF h(2) subseq_order.trans [OF ih(2) k1]] cb' p by simp
  have B: "subseq (filter (kept w') (callbacks (p # its))) (callbacks b')"
    using list_emb_append_mono [OF subseq_order.trans [OF k2 h(3)] ih(3)] cb' p res(2) by simp
  have T: "trace w' = trace w @ (d1 @ d2)"
    using h(4) ih(4) res(2) by simp
  have C: "subseq (map fst (d1 @ d2)) (map label_of (filter (alive w) (callbacks (p # its))))"
    using list_emb_append_mono [OF h(5) subseq_order.trans [OF ih(5) a1]] p by simp
  have D: "subseq (map label_of (filter (alive w') (callbacks (p # its)))) (map fst (d1 @ d2))"
    using list_emb_append_mono [OF subseq_order.trans [OF a2 h(6)] ih(6)] p res(2) by simp
  have E: "expired w \<subseteq> expired w'"
    using h(1) ih(1) res(2) by blast
  from A B C D E T show ?case by blast
qed

lemma Raise_loop_entries:
  "Raise_loop moved b args w = (b', args', w') \<Longrightarrow>
     subseq (map fst b') (map fst b) \<and>
     (\<forall>k v'. (k, v') \<in> set b' \<longrightarrow>
        v' \<noteq> [] \<and> (\<exists>v. (k, v) \<in> set b \<and> subseq v' (filter (kept w) v)))"
proof (induction b arbitrary: args w b' args' w')
  case Nil
  then show ?case by simp
next
  case (Cons p its)
  obtain k v where p: "p = (k, v)" by (cases p)
  obtain fv a1 w1 where eri: "erase_remove_if moved v args w = (fv, a1, w1)"
    by (cases "erase_remove_if moved v args w")
  obtain its' a2 w2 where rec: "Raise_loop moved its a1 w1 = (its', a2, w2)"
    by (cases "Raise_loop moved its a1 w1")
  from Cons.prems p eri rec have res: "b' = (if List.null fv then its' else (k, fv) # its')"
    by auto
  from erase_remove_if_sandwich [OF eri] have
    h: "expired w \<subseteq> expired w1" "subseq fv (filter (kept w) v)" by blast+
  note ih = Cons.IH [OF rec]
  have keys: "subseq (map fst b') (map fst (p # its))"
    using res ih p by (auto intro: subseq_Cons')
  have ents: "v' \<noteq> [] \<and> (\<exists>v. (k', v) \<in> set (p # its) \<and> subseq v' (filter (kept w) v))"
    if m: "(k', v') \<in> set b'" for k' v'
  proof (cases "(k', v') \<in> set its'")
    case True
    with ih obtain v0 where v0: "v' \<noteq> []" "(k', v0) \<in> set its" "subseq v' (filter (kept w1) v0)"
      by blast
    have "subseq (filter (kept w1) v0) (filter (kept w) v0)"
      by (rule subseq_filter_mono) (rule kept_mono [OF h(1)])
    with v0 show ?thesis by (auto intro: subseq_order.trans)
  next
    case False
    with m res have "k' = k" "v' = fv" "\<not> List.null fv" by (auto split: if_splits)
    with h(2) p show ?thesis by auto
  qed
  from keys ents show ?case by blast
qed

subsection \<open>Error handling of bind, remove and the membership query\<close>

text \<open>
  C6. Binding with a null owning pointer fails loudly (the assertion), in both raw-pointer
  overloads; binding through a weak reference that is already expired registers nothing,
  raises no error and returns the registry as it was.
\<close>

theorem bind_null_asserts_expired_weak_is_noop:
  "Bind_Callback_ptr f nullptr bindOnce b = Inl AssertionFailed \<and>
   Bind_member_ptr f nullptr bindOnce b = Inl AssertionFailed \<and>
   (weak_expired w weak \<longrightarrow>
      Bind_Callback_weak f weak bindOnce w b = b \<and> Bind_member_weak f weak bindOnce w b = b)"
  by (simp add: Bind_Callback_ptr_def Bind_member_ptr_def Bind_Callback_weak_def
      Bind_member_weak_def weak_lock_def sp_bool_def)

theorem bind_null_asserts_expired_weak_is_noop_witness:
  "weak_expired (world0\<lparr>expired := {1}\<rparr> :: (int, int) world) (WeakPtr (Some 1) 5) \<and>
   Bind_Callback_weak (Add 1) (WeakPtr (Some 1) 5) False (world0\<lparr>expired := {1}\<rparr>)
     [(7, [PtrMember 7 (Add 2) False])] = [(7, [PtrMember 7 (Add 2) False])] \<and>
   Bind_member_weak (Add 1) (WeakPtr (Some 1) 5) True (world0\<lparr>expired := {1}\<rparr>)
     [(7, [PtrMember 7 (Add 2) False])] = [(7, [PtrMember 7 (Add 2) False])]"
  using bind_null_asserts_expired_weak_is_noop
    [of "Add 1" False "[(7, [PtrMember 7 (Add 2) False])]"
        "world0\<lparr>expired := {1}\<rparr> :: (int, int) world" "WeakPtr (Some 1) 5"]
    bind_null_asserts_expired_weak_is_noop
    [of "Add 1" True "[(7, [PtrMember 7 (Add 2) False])]"
        "world0\<lparr>expired := {1}\<rparr> :: (int, int) world" "WeakPtr (Some 1) 5"]
  by (simp add: weak_expired_def world0_def)

text \<open>
  C7. For a non-null key, Remove erases the whole sequence of the key and returns true
  exactly when the key was present: the key is unbound afterwards and every other key
  keeps its sequence. A second Remove returns false, and so does Remove of a key that was
  never bound. Remove through a weak reference that is alive, or through a
  \<^verbatim>\<open>shared_ptr\<close>, does the same for the address the pointer stores: true and the entry
  erased when the key was present, false the second time. Remove through an expired weak
  reference returns false and leaves the registry as it was: a boolean, not an error.
\<close>

theorem Remove_true_iff_present:
  assumes "t \<noteq> nullptr" and "distinct (map fst b)"
  shows "Remove t b = Inr (map_of b t \<noteq> None, erase t b) \<and>
         map_of (erase t b) = (map_of b)(t := None) \<and>
         Remove t (erase t b) = Inr (False, erase t b) \<and>
         (map_of b t = None \<longrightarrow> Remove t b = Inr (False, b)) \<and>
         (weak_expired w weak \<longrightarrow> Remove_weak weak w b = Inr (False, b)) \<and>
         (\<not> weak_expired w weak \<and> wp_stored weak = t \<longrightarrow>
            Remove_weak weak w b = Inr (map_of b t \<noteq> None, erase t b) \<and>
            Remove_weak weak w (erase t b) = Inr (False, erase t b)) \<and>
         Remove_shared (SharedPtr own t) b = Inr (map_of b t \<noteq> None, erase t b) \<and>
         Remove_shared (SharedPtr own t) (erase t b) = Inr (False, erase t b)"
proof -
  have e: "map_of (erase t b) = (map_of b)(t := None)"
    using assms(2) by (rule map_of_erase)
  have r: "Remove t b = Inr (map_of b t \<noteq> None, erase t b)"
    using assms(1) by (auto simp: Remove_def erase_absent split: option.splits)
  have again: "Remove t (erase t b) = Inr (False, erase t b)"
    using assms(1) by (simp add: Remove_def e)
  have absent: "map_of b t = None \<longrightarrow> Remove t b = Inr (False, b)"
    using assms(1) by (simp add: Remove_def)
  have weak: "weak_expired w weak \<longrightarrow> Remove_weak weak w b = Inr (False, b)"
    by (simp add: Remove_weak_def weak_lock_def sp_bool_def)
  have live: "\<not> weak_expired w weak \<and> wp_stored weak = t \<longrightarrow>
            Remove_weak weak w b = Inr (map_of b t \<noteq> None, erase t b) \<and>
            Remove_weak weak w (erase t b) = Inr (False, erase t b)"
    using assms(1) r again by (simp add: Remove_weak_def weak_lock_def sp_bool_def)
  have shared: "Remove_shared (SharedPtr own t) b = Inr (map_of b t \<noteq> None, erase t b)"
    using assms(1) r by (simp add: Remove_shared_def sp_bool_def)
  have shared_again: "Remove_shared (SharedPtr own t) (erase t b) = Inr (False, erase t b)"
    using assms(1) again by (simp add: Remove_shared_def sp_bool_def)
  show ?thesis
    by (intro conjI) (rule r, rule e, rule again, rule absent, rule weak, rule live,
        rule shared, rule shared_again)
qed

theorem Remove_true_iff_present_witness:
  "Remove 7 [(7, [PtrMember 7 (Add 1) False, PtrMember 7 (Add 2) True])] = Inr (True, []) \<and>
   Remove 7 (erase 7 [(7, [PtrMember 7 (Add 1) False, PtrMember 7 (Add 2) True])])
     = Inr (False, []) \<and>
   Remove 9 [(7, [PtrMember 7 (Add 1) False, PtrMember 7 (Add 2) True])]
     = Inr (False, [(7, [PtrMember 7 (Add 1) False, PtrMember 7 (Add 2) True])]) \<and>
   Remove_weak (WeakPtr (Some 1) 7) (world0\<lparr>expired := {1}\<rparr> :: (int, int) world)
     [(7, [PtrMember 7 (Add 1) False, PtrMember 7 (Add 2) True])]
     = Inr (False, [(7, [PtrMember 7 (Add 1) False, PtrMember 7 (Add 2) True])]) \<and>
   Remove_weak (WeakPtr (Some 1) 7) (world0 :: (int, int) world)
     [(7, [WeakMember (WeakPtr (Some 1) 7) (Add 1) False]), (9, [PtrMember 9 (Add 2) False])]
     = Inr (True, [(9, [PtrMember 9 (Add 2) False])]) \<and>
   Remove_weak (WeakPtr (Some 1) 7) (world0 :: (int, int) world)
     [(9, [PtrMember 9 (Add 2) False])]
     = Inr (False, [(9, [PtrMember 9 (Add 2) False])]) \<and>
   Remove_shared (SharedPtr (Some 1) 7)
     [(7, [WeakMember (WeakPtr (Some 1) 7) (Add 1) False]), (9, [PtrMember 9 (Add 2) False])]
     = Inr (True, [(9, [PtrMember 9 (Add 2) False])])"
  using Remove_true_iff_present
    [of 7 "[(7, [PtrMember 7 (Add 1) False, PtrMember 7 (Add 2) True])]"
        "world0\<lparr>expired := {1}\<rparr> :: (int, int) world" "WeakPtr (Some 1) 7" "Some 1"]
    Remove_true_iff_present
    [of 9 "[(7, [PtrMember 7 (Add 1) False, PtrMember 7 (Add 2) True])]"
        "world0\<lparr>expired := {1}\<rparr> :: (int, int) world" "WeakPtr (Some 1) 7" "Some 1"]
    Remove_true_iff_present
    [of 7 "[(7, [WeakMember (WeakPtr (Some 1) 7) (Add 1) False]), (9, [PtrMember 9 (Add 2) False])]"
        "world0 :: (int, int) world" "WeakPtr (Some 1) 7" "Some 1"]
  by (simp add: nullptr_def weak_expired_def world0_def)

text \<open>
  C10. IsBound and Remove called with an empty \<^verbatim>\<open>shared_ptr\<close> (its stored pointer is null)
  return false and leave the registry as it was; the raw-pointer overloads assert on the
  null pointer.
\<close>

theorem null_shared_ptr_is_false_not_assert:
  "IsBound_shared (SharedPtr own nullptr) b = Inr False \<and>
   Remove_shared (SharedPtr own nullptr) b = Inr (False, b) \<and>
   IsBound nullptr b = Inl AssertionFailed \<and>
   Remove nullptr b = Inl AssertionFailed"
  by (simp add: IsBound_shared_def Remove_shared_def sp_bool_def IsBound_def Remove_def)

subsection \<open>Clearing the event\<close>

text \<open>
  C8. After RemoveAll, CallbackCount is 0 and the next Raise invokes no callback: the
  world, with the trace of invoked callbacks, is as before. Raise on an event with no
  subscriber returns without an error and leaves the registry empty.
\<close>

theorem RemoveAll_then_Raise_invokes_nothing:
  "CallbackCount (RemoveAll b) = 0 \<and>
   Size (RemoveAll b) = 0 \<and>
   Raise moved args (RemoveAll b, w) = ([], w) \<and>
   Raise moved args ([], w) = ([], w)"
  by (simp add: RemoveAll_def CallbackCount_def Size_def Raise_def)

subsection \<open>The invariant of the registry\<close>

lemma subseq_distinct: "subseq xs ys \<Longrightarrow> distinct ys \<Longrightarrow> distinct xs"
  by (induct rule: list_emb.induct) (auto dest: list_emb_set)

lemma keys_InternalBind:
  "map fst (InternalBind bound t b) = (if t \<in> set (map fst b) then map fst b else map fst b @ [t])"
  by (induction b) (force simp: image_iff)+

lemma vectors_InternalBind:
  "list_all (\<lambda>p. snd p \<noteq> []) b \<Longrightarrow> list_all (\<lambda>p. snd p \<noteq> []) (InternalBind bound t b)"
  by (induction b) auto

lemma no_dangling_InternalBind: "no_dangling b \<Longrightarrow> no_dangling (InternalBind bound t b)"
  by (simp add: no_dangling_def keys_InternalBind vectors_InternalBind)

lemma subseq_keys_erase: "subseq (map fst (erase t b)) (map fst b)"
  by (induction b) auto

lemma no_dangling_erase: "no_dangling b \<Longrightarrow> no_dangling (erase t b)"
  using set_erase_subset [of t b] subseq_distinct [OF subseq_keys_erase, of b t]
  by (auto simp: no_dangling_def list_all_iff)

lemma no_dangling_Remove: "no_dangling b \<Longrightarrow> Remove t b = Inr (r, b') \<Longrightarrow> no_dangling b'"
  by (auto simp: Remove_def no_dangling_erase split: if_splits option.splits)

lemma vectors_Raise:
  assumes "Raise moved args (b, w) = (b', w')"
  shows "list_all (\<lambda>p. snd p \<noteq> []) b'"
proof -
  from assms obtain a' where "Raise_loop moved b args w = (b', a', w')"
    by (auto simp: Raise_def split: prod.splits)
  from Raise_loop_entries [OF this] have "\<And>k v'. (k, v') \<in> set b' \<Longrightarrow> v' \<noteq> []" by blast
  then show ?thesis by (auto simp: list_all_iff)
qed

lemma no_dangling_Raise:
  assumes "distinct (map fst b)" and "Raise moved args (b, w) = (b', w')"
  shows "no_dangling b'"
proof -
  from assms(2) obtain a' where "Raise_loop moved b args w = (b', a', w')"
    by (auto simp: Raise_def split: prod.splits)
  from Raise_loop_entries [OF this] have "subseq (map fst b') (map fst b)" by blast
  with assms(1) have "distinct (map fst b')" by (blast intro: subseq_distinct)
  with vectors_Raise [OF assms(2)] show ?thesis by (simp add: no_dangling_def)
qed

lemma reachable_no_dangling: "reachable b \<Longrightarrow> no_dangling b"
proof (induction rule: reachable.induct)
  case new_event
  show ?case by (simp add: no_dangling_def)
next
  case (bind_callback_ptr b f t bindOnce b')
  then show ?case
    by (auto simp: Bind_Callback_ptr_def no_dangling_InternalBind split: if_splits)
next
  case (bind_callback_weak b f weak bindOnce w)
  then show ?case by (simp add: Bind_Callback_weak_def Let_def no_dangling_InternalBind)
next
  case (bind_member_weak b f weak bindOnce w)
  then show ?case by (simp add: Bind_member_weak_def Let_def no_dangling_InternalBind)
next
  case (bind_member_ptr b f t bindOnce b')
  then show ?case
    by (auto simp: Bind_member_ptr_def no_dangling_InternalBind split: if_splits)
next
  case (bind_standalone b cb bindOnce)
  then show ?case by (simp add: Bind_standalone_def no_dangling_InternalBind)
next
  case (remove b t r b')
  then show ?case by (blast intro: no_dangling_Remove)
next
  case (remove_weak b ptr w r b')
  then show ?case
    by (auto simp: Remove_weak_def Let_def split: if_splits intro: no_dangling_Remove)
next
  case (remove_shared b shared r b')
  then show ?case
    by (auto simp: Remove_shared_def split: if_splits intro: no_dangling_Remove)
next
  case (remove_all b)
  show ?case by (simp add: RemoveAll_def no_dangling_def)
next
  case (raise b moved args w b' w')
  then show ?case using no_dangling_Raise [of b moved args w b' w']
    by (simp add: no_dangling_def)
next
  case (rehash b b')
  from rehash(2) have "mset (map fst b') = mset (map fst b)" by simp
  then have "distinct (map fst b') = distinct (map fst b)" by (rule mset_eq_imp_distinct_iff)
  moreover from rehash(2) have "set b' = set b" by (rule mset_eq_setD)
  ultimately show ?case using rehash(3) by (simp add: no_dangling_def list_all_iff)
qed

lemma present_iff_nonempty:
  "list_all (\<lambda>p. snd p \<noteq> []) b \<Longrightarrow> (map_of b k \<noteq> None) = (sequence_of b k \<noteq> [])"
  by (auto simp: sequence_of_def list_all_iff split: option.splits dest!: map_of_SomeD)

text \<open>
  C4. In every registry that the operations (the Bind and BindOnce overloads, the Remove
  overloads, RemoveAll, Raise) build from a new event, the table has one entry per key and
  a key is present exactly when its callback sequence is not empty. After Raise this
  holds whatever the table was before: a key whose sequence became empty in the pass is
  gone when Raise returns.
\<close>

theorem key_present_iff_sequence_nonempty:
  "(reachable b \<longrightarrow>
      distinct (map fst b) \<and> (map_of b k \<noteq> None) = (sequence_of b k \<noteq> [])) \<and>
   (map_of (fst (Raise moved args (b0, w))) k \<noteq> None)
      = (sequence_of (fst (Raise moved args (b0, w))) k \<noteq> [])"
proof -
  have "list_all (\<lambda>p. snd p \<noteq> []) (fst (Raise moved args (b0, w)))"
    by (rule vectors_Raise [of moved args b0 w _ "snd (Raise moved args (b0, w))"]) simp
  then have after: "(map_of (fst (Raise moved args (b0, w))) k \<noteq> None)
      = (sequence_of (fst (Raise moved args (b0, w))) k \<noteq> [])"
    by (rule present_iff_nonempty)
  have "distinct (map fst b) \<and> (map_of b k \<noteq> None) = (sequence_of b k \<noteq> [])"
    if "reachable b"
    using reachable_no_dangling [OF that] present_iff_nonempty [of b k]
    by (simp add: no_dangling_def)
  with after show ?thesis by blast
qed

theorem key_present_iff_sequence_nonempty_witness:
  "reachable (Bind_standalone (Add 1) True []) \<and>
   map_of (Bind_standalone (Add 1) True []) StandaloneCallbackKey \<noteq> None \<and>
   sequence_of (Bind_standalone (Add 1) True []) StandaloneCallbackKey \<noteq> [] \<and>
   map_of (fst (Raise moved_trivial 5 (Bind_standalone (Add 1) True [], world0)))
     StandaloneCallbackKey = None \<and>
   sequence_of (fst (Raise moved_trivial 5 (Bind_standalone (Add 1) True [], world0)))
     StandaloneCallbackKey = []"
proof -
  have r: "reachable (Bind_standalone (Add 1) True [])"
    by (rule bind_standalone [OF new_event])
  show ?thesis
    using r key_present_iff_sequence_nonempty
      [of "Bind_standalone (Add 1) True []" StandaloneCallbackKey moved_trivial 5
          "Bind_standalone (Add 1) True []" world0]
    by (simp add: Bind_standalone_def sequence_of_def Raise_def)
qed

subsection \<open>Size and CallbackCount\<close>

lemma length_callbacks:
  "list_all (\<lambda>p. snd p \<noteq> []) b \<Longrightarrow> length b \<le> length (callbacks b)"
proof (induction b)
  case Nil
  show ?case by simp
next
  case (Cons p b)
  obtain k v where p: "p = (k, v)" by (cases p)
  with Cons.prems have "v \<noteq> []" by auto
  then have "1 \<le> length v" by (cases v) auto
  with Cons p show ?case by auto
qed

lemma total_word:
  "foldl (\<lambda>total pair. total + word_of_nat (length (snd pair))) (acc :: 32 word) b
     = acc + word_of_nat (length (callbacks b))"
  by (induction b arbitrary: acc) (auto simp: callbacks_def)

text \<open>
  C9, as the code has it. Size and CallbackCount return \<^verbatim>\<open>int\<close>. In every reachable
  registry with fewer than \<open>2 ^ 31\<close> callbacks in total, \<open>0 \<le> Size \<le> CallbackCount\<close>, Size
  is the number of distinct keys and CallbackCount the number of callbacks over all keys.
  Both are functions of the table alone: they return no new table.
\<close>

theorem Size_le_CallbackCount_below_int_limit:
  assumes "reachable b" and "length (callbacks b) < 2 ^ 31"
  shows "0 \<le> Size b \<and> Size b \<le> CallbackCount b \<and>
         Size b = int (card (fst ` set b)) \<and>
         CallbackCount b = int (length (callbacks b))"
proof -
  from reachable_no_dangling [OF assms(1)]
  have d: "distinct (map fst b)" and v: "list_all (\<lambda>p. snd p \<noteq> []) b"
    by (simp_all add: no_dangling_def)
  have le: "length b \<le> length (callbacks b)" using v by (rule length_callbacks)
  with assms(2) have "length b < 2 ^ 31" by simp
  then have s: "Size b = int (length b)" by (simp add: Size_def sint_of_nat_small)
  have c: "CallbackCount b = int (length (callbacks b))"
    using assms(2) by (simp add: CallbackCount_def total_word sint_of_nat_small)
  have "card (fst ` set b) = length b"
    using distinct_card [OF d] by simp
  with s c le show ?thesis by simp
qed

theorem Size_le_CallbackCount_below_int_limit_witness:
  "reachable (Bind_standalone (Add 2) False (Bind_standalone (Add 1) True [])) \<and>
   Size (Bind_standalone (Add 2) False (Bind_standalone (Add 1) True [])) = 1 \<and>
   CallbackCount (Bind_standalone (Add 2) False (Bind_standalone (Add 1) True [])) = 2"
proof -
  have r: "reachable (Bind_standalone (Add 2) False (Bind_standalone (Add 1) True []))"
    by (intro bind_standalone new_event)
  have l: "length (callbacks (Bind_standalone (Add 2) False (Bind_standalone (Add 1) True [])))
             < 2 ^ 31"
    by (simp add: Bind_standalone_def)
  show ?thesis
    using r Size_le_CallbackCount_below_int_limit [OF r l]
    by (simp add: Bind_standalone_def)
qed

text \<open>
  The bound is needed: \<open>2 ^ 31\<close> callbacks bound under one key make a reachable registry
  whose CallbackCount is negative and below its Size.
\<close>

lemma reachable_replicate:
  "reachable [(StandaloneCallbackKey, replicate (Suc n) (Standalone cb False))]"
proof (induction n)
  case 0
  show ?case using bind_standalone [OF new_event, of cb False] by (simp add: Bind_standalone_def)
next
  case (Suc n)
  show ?case using bind_standalone [OF Suc, of cb False]
    by (simp add: Bind_standalone_def replicate_append_same)
qed

theorem CallbackCount_wraps_counterexample:
  "reachable [(StandaloneCallbackKey,
      replicate (2 ^ 31) (Standalone (Observe 1 :: (int, int) Callback) False))] \<and>
   CallbackCount [(StandaloneCallbackKey,
      replicate (2 ^ 31) (Standalone (Observe 1 :: (int, int) Callback) False))] = - 2147483648 \<and>
   Size [(StandaloneCallbackKey,
      replicate (2 ^ 31) (Standalone (Observe 1 :: (int, int) Callback) False))] = 1"
proof -
  have "Suc (2 ^ 31 - 1) = (2 ^ 31 :: nat)" by simp
  with reachable_replicate [of "2 ^ 31 - 1" "Observe 1 :: (int, int) Callback"]
  have r: "reachable [(StandaloneCallbackKey,
      replicate (2 ^ 31) (Standalone (Observe 1 :: (int, int) Callback) False))]"
    by simp
  have c: "CallbackCount [(StandaloneCallbackKey,
      replicate (2 ^ 31) (Standalone (Observe 1 :: (int, int) Callback) False))] = - 2147483648"
    by (simp add: CallbackCount_def)
  have s: "Size [(StandaloneCallbackKey,
      replicate (2 ^ 31) (Standalone (Observe 1 :: (int, int) Callback) False))] = 1"
    by (simp add: Size_def)
  from r c s show ?thesis by blast
qed

subsection \<open>Eviction of a subscription whose weak reference has expired\<close>

lemma Raise_unfold:
  "Raise moved args (b, w) = (b', w') \<Longrightarrow> \<exists>a'. Raise_loop moved b args w = (b', a', w')"
  by (auto simp: Raise_def split: prod.splits)

lemma invoked_since_append: "trace w' = trace w @ delta \<Longrightarrow> invoked_since w w' = map fst delta"
  by (simp add: invoked_since_def)

lemma weak_expired_mono: "expired w \<subseteq> expired w' \<Longrightarrow> weak_expired w weak \<Longrightarrow> weak_expired w' weak"
  by (auto simp: weak_expired_def split: option.splits)

lemma subseq_mem: "subseq xs ys \<Longrightarrow> x \<in> set xs \<Longrightarrow> x \<in> set ys"
  by (induct rule: list_emb.induct) auto

text \<open>
  C1, as the code has it. Let an event hold a subscription made through a weak reference
  whose object has been destroyed. The next Raise removes that subscription; it does not
  invoke the user callback (no callback with its label runs, when that label is carried
  only by subscriptions that are dead at the Raise); afterwards IsBound on the weak
  reference is false. The key of the subscription is gone from the table, and the table
  is shorter, when every callback under that key was dead or fire-once at the Raise. A
  key that holds another callback that stays registered is still counted by Size.
\<close>

theorem expired_weak_subscription_evicted:
  assumes "(k, cbs) \<in> set b" and "cb \<in> set cbs"
    and "cb = WeakMember weak f bindOnce \<or> cb = WeakCallback weak f bindOnce"
    and "weak_expired w weak"
    and "Raise moved args (b, w) = (b', w')"
  shows "cb \<notin> set (callbacks b') \<and>
         ((\<forall>c \<in> set (callbacks b). label_of c = label f \<longrightarrow> \<not> alive w c) \<longrightarrow>
             label f \<notin> set (invoked_since w w')) \<and>
         IsBound_weak weak w' b' = Inr False \<and>
         (distinct (map fst b) \<and> (\<forall>c \<in> set cbs. \<not> kept w c) \<longrightarrow>
             map_of b' k = None \<and> length b' < length b \<and>
             (length b < 2 ^ 31 \<longrightarrow> Size b' < Size b))"
proof -
  from Raise_unfold [OF assms(5)] obtain a' where loop: "Raise_loop moved b args w = (b', a', w')"
    by blast
  from Raise_loop_sandwich [OF loop] obtain delta where
    s: "expired w \<subseteq> expired w'" "subseq (callbacks b') (filter (kept w) (callbacks b))"
       "trace w' = trace w @ delta"
       "subseq (map fst delta) (map label_of (filter (alive w) (callbacks b)))"
    by blast
  note e = Raise_loop_entries [OF loop]
  from e have keys: "subseq (map fst b') (map fst b)" by (rule conjunct1)
  from e have ents0: "\<forall>k v'. (k, v') \<in> set b' \<longrightarrow>
        v' \<noteq> [] \<and> (\<exists>v. (k, v) \<in> set b \<and> subseq v' (filter (kept w) v))"
    by (rule conjunct2)
  have ents: "v' \<noteq> [] \<and> (\<exists>v. (k, v) \<in> set b \<and> subseq v' (filter (kept w) v))"
    if "(k, v') \<in> set b'" for k v'
    using ents0 that by blast
  have dead: "\<not> alive w cb"
  proof (cases "cb = WeakMember weak f bindOnce")
    case True
    with assms(4) show ?thesis by (simp add: weak_lock_def sp_bool_def)
  next
    case False
    with assms(3) have "cb = WeakCallback weak f bindOnce" by simp
    with assms(4) show ?thesis by simp
  qed
  have gone: "cb \<notin> set (callbacks b')"
  proof
    assume "cb \<in> set (callbacks b')"
    with s(2) have "cb \<in> set (filter (kept w) (callbacks b))"
      by (rule subseq_mem)
    with dead show False by (simp add: kept_def)
  qed
  have quiet: "(\<forall>c \<in> set (callbacks b). label_of c = label f \<longrightarrow> \<not> alive w c) \<longrightarrow>
             label f \<notin> set (invoked_since w w')"
  proof (intro impI notI)
    assume h: "\<forall>c \<in> set (callbacks b). label_of c = label f \<longrightarrow> \<not> alive w c"
    assume "label f \<in> set (invoked_since w w')"
    then have "label f \<in> set (map fst delta)" by (simp add: invoked_since_append [OF s(3)])
    with s(4) have "label f \<in> set (map label_of (filter (alive w) (callbacks b)))"
      by (rule subseq_mem)
    then obtain c where "c \<in> set (callbacks b)" "alive w c" "label_of c = label f"
      by auto
    with h show False by blast
  qed
  have unbound: "IsBound_weak weak w' b' = Inr False"
    using weak_expired_mono [OF s(1) assms(4)]
    by (simp add: IsBound_weak_def weak_lock_def sp_bool_def)
  have key: "distinct (map fst b) \<and> (\<forall>c \<in> set cbs. \<not> kept w c) \<longrightarrow>
             map_of b' k = None \<and> length b' < length b \<and>
             (length b < 2 ^ 31 \<longrightarrow> Size b' < Size b)"
  proof (intro impI, elim conjE)
    assume d: "distinct (map fst b)" and allgone: "\<forall>c \<in> set cbs. \<not> kept w c"
    have none: "filter (kept w) cbs = []" using allgone by (simp add: filter_empty_conv)
    have nk: "k \<notin> set (map fst b')"
    proof
      assume "k \<in> set (map fst b')"
      then obtain v' where v': "(k, v') \<in> set b'" by auto
      from ents [OF this] obtain v where v: "v' \<noteq> []" "(k, v) \<in> set b" "subseq v' (filter (kept w) v)"
        by blast
      have "v = cbs" by (rule eq_key_imp_eq_value [OF d v(2) assms(1)])
      with v none show False by simp
    qed
    then have m: "map_of b' k = None" by (simp add: map_of_eq_None_iff)
    have kin: "k \<in> set (map fst b)" using assms(1) by force
    have "length (map fst b') \<noteq> length (map fst b)"
    proof
      assume "length (map fst b') = length (map fst b)"
      with keys have e: "map fst b' = map fst b" by (rule subseq_same_length)
      from kin nk show False unfolding e by (rule notE [rotated])
    qed
    with list_emb_length [OF keys] have shorter: "length b' < length b" by simp
    then have "Size b' < Size b" if "length b < 2 ^ 31"
      using that by (simp add: Size_def sint_of_nat_small)
    with m shorter show "map_of b' k = None \<and> length b' < length b \<and>
        (length b < 2 ^ 31 \<longrightarrow> Size b' < Size b)"
      by simp
  qed
  show ?thesis
    by (intro conjI) (rule gone, rule quiet, rule unbound, rule key)
qed

theorem expired_weak_subscription_evicted_witness:
  "Raise moved_trivial 5
     ([(7, [WeakMember (WeakPtr (Some 1) 7) (Add 1) False])], world0\<lparr>expired := {1}\<rparr>)
     = ([], world0\<lparr>expired := {1}\<rparr>) \<and>
   IsBound_weak (WeakPtr (Some 1) 7) (world0\<lparr>expired := {1}\<rparr> :: (int, int) world) [] = Inr False \<and>
   Size ([] :: (int, int) Binds) = 0 \<and>
   Size [(7, [WeakMember (WeakPtr (Some 1) 7) (Add 1) False])] = 1"
  using expired_weak_subscription_evicted [of 7 "[WeakMember (WeakPtr (Some 1) 7) (Add 1) False]"
      "[(7, [WeakMember (WeakPtr (Some 1) 7) (Add 1) False])]"
      "WeakMember (WeakPtr (Some 1) 7) (Add 1) False" "WeakPtr (Some 1) 7" "Add 1" False
      "world0\<lparr>expired := {1}\<rparr>" moved_trivial 5 "[]" "world0\<lparr>expired := {1}\<rparr>"]
  by (simp add: Raise_def weak_expired_def weak_lock_def sp_bool_def world0_def Size_def
      IsBound_weak_def)

text \<open>
  The key is the address. An object is bound through its weak reference and destroyed; a
  second object that lives at the same address is bound through its own weak reference.
  The Raise removes the first subscription and keeps the second, so the key is still
  bound and Size still counts it. The same happens when the other callback under the key
  was bound with the raw pointer.
\<close>

theorem shared_key_still_counted_counterexample:
  "Bind_member_weak (Add 2) (WeakPtr (Some 2) 7) False (env_step {1} (\<lambda>u. u) world0)
     (Bind_member_weak (Add 1) (WeakPtr (Some 1) 7) False world0 [])
     = [(7, [WeakMember (WeakPtr (Some 1) 7) (Add 1) False,
             WeakMember (WeakPtr (Some 2) 7) (Add 2) False])] \<and>
   weak_expired (env_step {1} (\<lambda>u. u) world0 :: (int, int) world) (WeakPtr (Some 1) 7) \<and>
   Size (fst (Raise moved_trivial 5
     ([(7, [WeakMember (WeakPtr (Some 1) 7) (Add 1) False,
            WeakMember (WeakPtr (Some 2) 7) (Add 2) False])],
      env_step {1} (\<lambda>u. u) world0))) = 1 \<and>
   IsBound 7 (fst (Raise moved_trivial 5
     ([(7, [WeakMember (WeakPtr (Some 1) 7) (Add 1) False,
            WeakMember (WeakPtr (Some 2) 7) (Add 2) False])],
      env_step {1} (\<lambda>u. u) world0))) = Inr True \<and>
   Size (fst (Raise moved_trivial 5
     ([(7, [WeakMember (WeakPtr (Some 1) 7) (Add 1) False,
            PtrCallback (Add 2) 7 False])],
      env_step {1} (\<lambda>u. u) world0))) = 1"
  by (simp add: Bind_member_weak_def weak_lock_def weak_expired_def sp_bool_def nullptr_def
      env_step_def world0_def Raise_def Size_def IsBound_def call_def Add_def)

subsection \<open>Fire-once subscriptions\<close>

lemma count_list_subseq: "subseq xs ys \<Longrightarrow> count_list xs l \<le> count_list ys l"
  by (induct rule: list_emb.induct) auto

lemma count_list_labels:
  "count_list (map label_of cs) l = length (filter (\<lambda>c. label_of c = l) cs)"
  by (induction cs) auto

lemma invocations_append:
  "trace w' = trace w @ delta \<Longrightarrow> invocations l w' = invocations l w + count_list (map fst delta) l"
  by (simp add: invocations_def)

lemma invocations_env_step: "invocations l (env_step released g w) = invocations l w"
  by (simp add: invocations_def env_step_def)

lemma filter_swap: "filter P (filter Q xs) = filter Q (filter P xs)"
  by (induction xs) auto

lemma filter_subscriptions:
  "filter P (subscriptions l b) = filter (\<lambda>c. label_of c = l) (filter P (callbacks b))"
  unfolding subscriptions_def by (rule filter_swap)

lemma Raise_subscriptions:
  assumes "Raise moved args (b, w) = (b', w')"
  shows "subseq (subscriptions l b') (filter (kept w) (subscriptions l b)) \<and>
         invocations l w' \<le> invocations l w + length (filter (alive w) (subscriptions l b)) \<and>
         invocations l w + length (filter (alive w') (subscriptions l b)) \<le> invocations l w'"
proof -
  from Raise_unfold [OF assms] obtain a' where loop: "Raise_loop moved b args w = (b', a', w')"
    by blast
  from Raise_loop_sandwich [OF loop] obtain delta where
    s: "subseq (callbacks b') (filter (kept w) (callbacks b))"
       "trace w' = trace w @ delta"
       "subseq (map fst delta) (map label_of (filter (alive w) (callbacks b)))"
       "subseq (map label_of (filter (alive w') (callbacks b))) (map fst delta)"
    by blast
  have a: "subseq (subscriptions l b') (filter (kept w) (subscriptions l b))"
    unfolding filter_subscriptions unfolding subscriptions_def
    using s(1) by (rule subseq_filter)
  have up: "count_list (map fst delta) l \<le> length (filter (alive w) (subscriptions l b))"
    unfolding filter_subscriptions count_list_labels [symmetric]
    by (rule count_list_subseq [OF s(3)])
  have lo: "length (filter (alive w') (subscriptions l b)) \<le> count_list (map fst delta) l"
    unfolding filter_subscriptions count_list_labels [symmetric]
    by (rule count_list_subseq [OF s(4)])
  from a up lo show ?thesis by (simp add: invocations_append [OF s(2)])
qed

lemma Raises_unsubscribed:
  "subscriptions l (fst bw) = [] \<Longrightarrow>
     subscriptions l (fst (Raises moved rs bw)) = [] \<and>
     invocations l (snd (Raises moved rs bw)) = invocations l (snd bw)"
proof (induction rs arbitrary: bw)
  case Nil
  then show ?case by simp
next
  case (Cons r rs)
  obtain released g args where r: "r = (released, g, args)" by (cases r)
  obtain b1 w1 where step: "Raise moved args (fst bw, env_step released g (snd bw)) = (b1, w1)"
    by (cases "Raise moved args (fst bw, env_step released g (snd bw))")
  note s = Raise_subscriptions [OF step, of l]
  from s have "subseq (subscriptions l b1) (filter (kept (env_step released g (snd bw))) (subscriptions l (fst bw)))"
    by (rule conjunct1)
  then have n: "subscriptions l b1 = []"
    unfolding Cons.prems by (simp add: list_emb_Nil2)
  from s have i: "invocations l w1 = invocations l (snd bw)"
    by (simp add: Cons.prems invocations_env_step)
  from Cons.IH [of "(b1, w1)"] n i show ?case by (simp add: r step)
qed

lemma erase_remove_if_append:
  "erase_remove_if moved (xs @ ys) args w =
     (case erase_remove_if moved xs args w of (xs', a1, w1) \<Rightarrow>
        (case erase_remove_if moved ys a1 w1 of (ys', a2, w2) \<Rightarrow> (xs' @ ys', a2, w2)))"
  by (induction xs arbitrary: args w) (auto split: prod.splits)

lemma Raise_loop_append:
  "Raise_loop moved (xs @ ys) args w =
     (case Raise_loop moved xs args w of (xs', a1, w1) \<Rightarrow>
        (case Raise_loop moved ys a1 w1 of (ys', a2, w2) \<Rightarrow> (xs' @ ys', a2, w2)))"
  by (induction xs arbitrary: args w) (auto split: prod.splits)

lemma count_list_zero: "l \<notin> set xs \<Longrightarrow> count_list xs l = 0"
  by (induction xs) auto

lemma erase_remove_if_quiet:
  assumes "filter (\<lambda>c. label_of c = l) cbs = []"
    and "erase_remove_if moved cbs args w = (rest, args', w')"
  shows "invocations l w' = invocations l w"
proof -
  from erase_remove_if_sandwich [OF assms(2)] obtain delta where
    s: "trace w' = trace w @ delta"
       "subseq (map fst delta) (map label_of (filter (alive w) cbs))"
    by blast
  from assms(1) have "l \<notin> set (map label_of (filter (alive w) cbs))"
    by (auto simp: filter_empty_conv)
  then have "count_list (map label_of (filter (alive w) cbs)) l = 0" by (rule count_list_zero)
  with count_list_subseq [OF s(2), of l] have "count_list (map fst delta) l = 0" by simp
  then show ?thesis by (simp add: invocations_append [OF s(1)])
qed

lemma Raise_loop_quiet:
  assumes "filter (\<lambda>c. label_of c = l) (callbacks b) = []"
    and "Raise_loop moved b args w = (b', args', w')"
  shows "invocations l w' = invocations l w"
proof -
  from Raise_loop_sandwich [OF assms(2)] obtain delta where
    s: "trace w' = trace w @ delta"
       "subseq (map fst delta) (map label_of (filter (alive w) (callbacks b)))"
    by blast
  from assms(1) have "l \<notin> set (map label_of (filter (alive w) (callbacks b)))"
    by (auto simp: filter_empty_conv)
  then have "count_list (map label_of (filter (alive w) (callbacks b))) l = 0"
    by (rule count_list_zero)
  with count_list_subseq [OF s(2), of l] have "count_list (map fst delta) l = 0" by simp
  then show ?thesis by (simp add: invocations_append [OF s(1)])
qed

lemma callbacks_append: "callbacks (xs @ ys) = callbacks xs @ callbacks ys"
  by (simp add: callbacks_def)

lemma invocations_invoke:
  "label_of cb = l \<Longrightarrow>
     invocations l (snd (invoke cb args w)) = invocations l w + (if alive w cb then 1 else 0)"
  by (simp add: invoke_eq invocations_def trace_call label_of_def)

lemma only_subscription:
  assumes "subscriptions l (pre @ (k, front @ cb # rear) # post) = [cb]"
  shows "label_of cb = l \<and>
         filter (\<lambda>c. label_of c = l) (callbacks pre) = [] \<and>
         filter (\<lambda>c. label_of c = l) front = [] \<and>
         filter (\<lambda>c. label_of c = l) rear = [] \<and>
         filter (\<lambda>c. label_of c = l) (callbacks post) = []"
proof -
  let ?L = "\<lambda>c. label_of c = l"
  from assms have "cb \<in> set (subscriptions l (pre @ (k, front @ cb # rear) # post))"
    by simp
  then have lab: "label_of cb = l" by (simp add: subscriptions_def)
  from assms lab have e: "filter ?L (callbacks pre) @ filter ?L front @ cb
      # filter ?L rear @ filter ?L (callbacks post) = [cb]"
    by (simp add: subscriptions_def callbacks_append)
  from arg_cong [OF e, of length]
  have "length (filter ?L (callbacks pre)) = 0" "length (filter ?L front) = 0"
    "length (filter ?L rear) = 0" "length (filter ?L (callbacks post)) = 0"
    by simp_all
  with lab show ?thesis by simp
qed

lemma subscription_position:
  assumes "subscriptions l b = [cb]"
  shows "\<exists>pre k front rear post. b = pre @ (k, front @ cb # rear) # post"
proof -
  from assms have "cb \<in> set (subscriptions l b)" by simp
  then have "cb \<in> set (callbacks b)" by (simp add: subscriptions_def)
  then obtain p where p: "p \<in> set b" "cb \<in> set (snd p)" by (auto simp: callbacks_def)
  from split_list [OF p(1)] obtain pre post where b: "b = pre @ p # post" by blast
  from split_list [OF p(2)] obtain front rear where v: "snd p = front @ cb # rear" by blast
  have "p = (fst p, front @ cb # rear)" using v by (cases p) simp
  with b have "b = pre @ (fst p, front @ cb # rear) # post" by simp
  then show ?thesis by (intro exI)
qed

lemma Raise_exact:
  assumes "subscriptions l b = [cb]"
    and "Raise moved args (b, w0) = (b1, w1)"
    and "b = pre @ (k, front @ cb # rear) # post"
    and "Raise_loop moved pre args w0 = (pre', a1, wa)"
    and "erase_remove_if moved front a1 wa = (front', a2, wc)"
  shows "invocations l w1 = invocations l w0 + (if alive wc cb then 1 else 0)"
proof -
  note o = only_subscription [OF assms(1) [unfolded assms(3)]]
  obtain al wd where inv: "invoke cb a2 wc = (al, wd)" by (cases "invoke cb a2 wc")
  obtain rear' a3 we where bk: "erase_remove_if moved rear (moved a2) wd = (rear', a3, we)"
    by (cases "erase_remove_if moved rear (moved a2) wd")
  obtain post' a4 wf where po: "Raise_loop moved post a3 we = (post', a4, wf)"
    by (cases "Raise_loop moved post a3 we")
  have "erase_remove_if moved (front @ cb # rear) a1 wa
          = (front' @ (if al then cb # rear' else rear'), a3, we)"
    by (simp add: erase_remove_if_append assms(5) inv bk)
  then have "Raise_loop moved ((k, front @ cb # rear) # post) a1 wa
          = (if List.null (front' @ (if al then cb # rear' else rear')) then post'
             else (k, front' @ (if al then cb # rear' else rear')) # post', a4, wf)"
    by (simp add: po)
  then have "snd (snd (Raise_loop moved b args w0)) = wf"
    by (simp add: assms(3) Raise_loop_append assms(4))
  with assms(2) have w1: "w1 = wf" by (auto simp: Raise_def split: prod.splits)
  have 1: "invocations l wa = invocations l w0"
    using o assms(4) by (blast intro: Raise_loop_quiet)
  have 2: "invocations l wc = invocations l wa"
    using o assms(5) by (blast intro: erase_remove_if_quiet)
  have 3: "invocations l wd = invocations l wc + (if alive wc cb then 1 else 0)"
    using invocations_invoke [of cb l a2 wc] o inv by simp
  have 4: "invocations l we = invocations l wd"
    using o bk by (blast intro: erase_remove_if_quiet)
  have 5: "invocations l wf = invocations l we"
    using o po by (blast intro: Raise_loop_quiet)
  from 1 2 3 4 5 w1 show ?thesis by simp
qed

text \<open>
  C2, as the code has it. Let a fire-once subscription be the only one with its label, and
  take any run of raises, the program around the event releasing objects and changing its
  state between them. The first Raise removes the subscription, no later Raise invokes it,
  and over the whole run its user callback is invoked at most once. It is invoked exactly
  once when its liveness check passes at the moment the first Raise reaches it, and not at
  all when the check fails there: the world of the check is the one the Raise has made
  after the entries before the key and the callbacks before it in its vector. So it runs
  once when it is still alive after the first Raise (always, for a subscription bound with
  a raw pointer or with no object), and never when its weak reference has expired before
  the first Raise; when the object is released during the pass, what counts is whether
  that happens before the check.
\<close>

theorem fire_once_invoked_at_most_once:
  assumes "subscriptions l b = [cb]" and "bindOnce_of cb"
    and "Raise moved args (b, env_step released g w) = (b1, w1)"
  shows "subscriptions l b1 = [] \<and>
         subscriptions l (fst (Raises moved ((released, g, args) # rs) (b, w))) = [] \<and>
         invocations l (snd (Raises moved ((released, g, args) # rs) (b, w))) = invocations l w1 \<and>
         invocations l w1 \<le> invocations l w + 1 \<and>
         (alive w1 cb \<longrightarrow> invocations l w1 = invocations l w + 1) \<and>
         (\<not> alive (env_step released g w) cb \<longrightarrow> invocations l w1 = invocations l w) \<and>
         (\<exists>pre k front rear post. b = pre @ (k, front @ cb # rear) # post) \<and>
         (b = pre @ (k, front @ cb # rear) # post \<and>
          Raise_loop moved pre args (env_step released g w) = (pre', a1, wa) \<and>
          erase_remove_if moved front a1 wa = (front', a2, wc) \<longrightarrow>
            invocations l w1 = invocations l w + (if alive wc cb then 1 else 0))"
proof -
  note s = Raise_subscriptions [OF assms(3), of l]
  have nk: "filter (kept (env_step released g w)) [cb] = []"
    using assms(2) by (simp add: kept_def)
  from s have "subseq (subscriptions l b1) (filter (kept (env_step released g w)) (subscriptions l b))"
    by (rule conjunct1)
  then have gone: "subscriptions l b1 = []"
    unfolding assms(1) nk by (rule list_emb_Nil2)
  from Raises_unsubscribed [of l "(b1, w1)" moved rs] gone
  have later: "subscriptions l (fst (Raises moved ((released, g, args) # rs) (b, w))) = []"
    "invocations l (snd (Raises moved ((released, g, args) # rs) (b, w))) = invocations l w1"
    by (simp_all add: assms(3))
  from s have up: "invocations l w1 \<le> invocations l w + 1"
    by (auto simp: assms(1) invocations_env_step split: if_splits)
  from s have exact: "alive w1 cb \<longrightarrow> invocations l w1 = invocations l w + 1"
    by (auto simp: assms(1) invocations_env_step split: if_splits)
  from s have never: "\<not> alive (env_step released g w) cb \<longrightarrow> invocations l w1 = invocations l w"
    by (auto simp: assms(1) invocations_env_step split: if_splits)
  have position: "\<exists>pre k front rear post. b = pre @ (k, front @ cb # rear) # post"
    using assms(1) by (rule subscription_position)
  have reached: "b = pre @ (k, front @ cb # rear) # post \<and>
          Raise_loop moved pre args (env_step released g w) = (pre', a1, wa) \<and>
          erase_remove_if moved front a1 wa = (front', a2, wc) \<longrightarrow>
            invocations l w1 = invocations l w + (if alive wc cb then 1 else 0)"
  proof (intro impI, elim conjE)
    assume d: "b = pre @ (k, front @ cb # rear) # post"
      and p: "Raise_loop moved pre args (env_step released g w) = (pre', a1, wa)"
      and f: "erase_remove_if moved front a1 wa = (front', a2, wc)"
    from Raise_exact [OF assms(1) assms(3) d p f]
    show "invocations l w1 = invocations l w + (if alive wc cb then 1 else 0)"
      by (simp add: invocations_env_step)
  qed
  show ?thesis
    by (intro conjI) (rule gone, rule later(1), rule later(2), rule up, rule exact, rule never,
        rule position, rule reached)
qed

theorem fire_once_invoked_at_most_once_witness:
  "invocations 1 (snd (Raises moved_trivial [({}, \<lambda>u. u, 5), ({}, \<lambda>u. u, 10)]
      ([(7, [PtrMember 7 (Add 1) True])], world0))) = 1 \<and>
   alive (env_step {} (\<lambda>u. u) world0 :: (int, int) world)
     (WeakMember (WeakPtr (Some 1) 7) (Observe 1) True) \<and>
   invocations 1 (snd (Raise moved_trivial 5
      ([(9, [PtrMember 9 (Release 2 1) False]),
        (7, [WeakMember (WeakPtr (Some 1) 7) (Observe 1) True])],
       env_step {} (\<lambda>u. u) world0 :: (int, int) world))) = 0 \<and>
   invocations 1 (snd (Raise moved_trivial 5
      ([(7, [WeakMember (WeakPtr (Some 1) 7) (Release 1 1) True])],
       env_step {} (\<lambda>u. u) world0 :: (int, int) world))) = 1 \<and>
   \<not> alive (snd (Raise moved_trivial 5
      ([(7, [WeakMember (WeakPtr (Some 1) 7) (Release 1 1) True])],
       env_step {} (\<lambda>u. u) world0 :: (int, int) world)))
     (WeakMember (WeakPtr (Some 1) 7) (Release 1 1) True)"
  using
    fire_once_invoked_at_most_once [where l = 1 and b = "[(7, [PtrMember 7 (Add 1) True])]"
      and cb = "PtrMember 7 (Add 1) True" and moved = moved_trivial and args = 5
      and released = "{}" and g = "\<lambda>u. u" and w = world0
      and ?b1.0 = "fst (Raise moved_trivial 5 ([(7, [PtrMember 7 (Add 1) True])], env_step {} (\<lambda>u. u) world0))"
      and ?w1.0 = "snd (Raise moved_trivial 5 ([(7, [PtrMember 7 (Add 1) True])], env_step {} (\<lambda>u. u) world0))"
      and rs = "[({}, \<lambda>u. u, 10)]"
      and pre = "[]" and k = 7 and front = "[]" and rear = "[]" and post = "[]"
      and pre' = "[]" and ?a1.0 = 5 and wa = "env_step {} (\<lambda>u. u) world0"
      and front' = "[]" and ?a2.0 = 5 and wc = "env_step {} (\<lambda>u. u) world0"]
    fire_once_invoked_at_most_once [where l = 1
      and b = "[(9, [PtrMember 9 (Release 2 1) False]),
                (7, [WeakMember (WeakPtr (Some 1) 7) (Observe 1) True])]"
      and cb = "WeakMember (WeakPtr (Some 1) 7) (Observe 1) True"
      and moved = moved_trivial and args = 5
      and released = "{}" and g = "\<lambda>u. u" and w = "world0 :: (int, int) world"
      and ?b1.0 = "fst (Raise moved_trivial 5
         ([(9, [PtrMember 9 (Release 2 1) False]),
           (7, [WeakMember (WeakPtr (Some 1) 7) (Observe 1) True])],
          env_step {} (\<lambda>u. u) world0))"
      and ?w1.0 = "snd (Raise moved_trivial 5
         ([(9, [PtrMember 9 (Release 2 1) False]),
           (7, [WeakMember (WeakPtr (Some 1) 7) (Observe 1) True])],
          env_step {} (\<lambda>u. u) world0))"
      and rs = "[]"
      and pre = "[(9, [PtrMember 9 (Release 2 1) False])]" and k = 7 and front = "[]"
      and rear = "[]" and post = "[]"
      and pre' = "[(9, [PtrMember 9 (Release 2 1) False])]" and ?a1.0 = 5
      and wa = "\<lparr>expired = {1}, user = 0, trace = [(2, 5)]\<rparr>"
      and front' = "[]" and ?a2.0 = 5
      and wc = "\<lparr>expired = {1}, user = 0, trace = [(2, 5)]\<rparr>"]
    fire_once_invoked_at_most_once [where l = 1
      and b = "[(7, [WeakMember (WeakPtr (Some 1) 7) (Release 1 1) True])]"
      and cb = "WeakMember (WeakPtr (Some 1) 7) (Release 1 1) True"
      and moved = moved_trivial and args = 5
      and released = "{}" and g = "\<lambda>u. u" and w = "world0 :: (int, int) world"
      and ?b1.0 = "fst (Raise moved_trivial 5
         ([(7, [WeakMember (WeakPtr (Some 1) 7) (Release 1 1) True])],
          env_step {} (\<lambda>u. u) world0))"
      and ?w1.0 = "snd (Raise moved_trivial 5
         ([(7, [WeakMember (WeakPtr (Some 1) 7) (Release 1 1) True])],
          env_step {} (\<lambda>u. u) world0))"
      and rs = "[]"
      and pre = "[]" and k = 7 and front = "[]" and rear = "[]" and post = "[]"
      and pre' = "[]" and ?a1.0 = 5 and wa = "env_step {} (\<lambda>u. u) world0"
      and front' = "[]" and ?a2.0 = 5 and wc = "env_step {} (\<lambda>u. u) world0"]
  by (simp add: subscriptions_def callbacks_def label_of_def Add_def Observe_def Release_def
      invocations_def world0_def env_step_def weak_lock_def weak_expired_def sp_bool_def
      nullptr_def moved_trivial_def Raise_def call_def)

text \<open>
  A fire-once subscription bound through a weak reference whose object is destroyed before
  the first Raise is removed by that Raise and is never invoked: zero times, not once.
\<close>

theorem expired_once_never_invoked_counterexample:
  "Bind_member_weak (Add 1) (WeakPtr (Some 1) 7) True world0 []
     = [(7, [WeakMember (WeakPtr (Some 1) 7) (Add 1) True])] \<and>
   invocations 1 (snd (Raises moved_trivial [({1}, \<lambda>u. u, 5), ({}, \<lambda>u. u, 10)]
      ([(7, [WeakMember (WeakPtr (Some 1) 7) (Add 1) True])], world0))) = 0 \<and>
   fst (Raises moved_trivial [({1}, \<lambda>u. u, 5), ({}, \<lambda>u. u, 10)]
      ([(7, [WeakMember (WeakPtr (Some 1) 7) (Add 1) True])], world0)) = []"
  by (simp add: Bind_member_weak_def weak_lock_def weak_expired_def sp_bool_def nullptr_def
      world0_def env_step_def Raise_def invocations_def)

subsection \<open>Order of invocation within a key\<close>

lemma sequence_of_InternalBind:
  "sequence_of (InternalBind bound t b) t = sequence_of b t @ [bound]"
  by (induction b) (auto simp: sequence_of_def)

lemma sequence_of_binds:
  "sequence_of (foldl (\<lambda>b bound. InternalBind bound t b) b bounds) t = sequence_of b t @ bounds"
  by (induction bounds arbitrary: b) (simp_all add: sequence_of_InternalBind)

lemma filter_callbacks_none:
  "\<forall>(k, v) \<in> set b. \<forall>c \<in> set v. \<not> P c \<Longrightarrow> filter P (callbacks b) = []"
  by (induction b) (auto simp: filter_empty_conv)

lemma filter_callbacks_key:
  assumes "distinct (map fst b)"
    and "\<forall>(k, v) \<in> set b. k \<noteq> t \<longrightarrow> (\<forall>c \<in> set v. \<not> P c)"
  shows "filter P (callbacks b) = filter P (sequence_of b t)"
  using assms
proof (induction b)
  case Nil
  show ?case by (simp add: sequence_of_def)
next
  case (Cons p its)
  obtain k v where p: "p = (k, v)" by (cases p)
  show ?case
  proof (cases "k = t")
    case True
    from Cons.prems(1) p True have nt: "\<forall>x \<in> set its. fst x \<noteq> t" by auto
    have "\<forall>(k', v') \<in> set its. \<forall>c \<in> set v'. \<not> P c"
      using Cons.prems(2) nt by fastforce
    then have "filter P (callbacks its) = []" by (rule filter_callbacks_none)
    with True p show ?thesis by (simp add: sequence_of_def)
  next
    case False
    with Cons.prems p have v: "filter P v = []" by (auto simp: filter_empty_conv)
    from Cons.prems p have "filter P (callbacks its) = filter P (sequence_of its t)"
      by (intro Cons.IH) auto
    with v False p show ?thesis by (simp add: sequence_of_def)
  qed
qed

lemma filter_labels: "filter Q (map label_of cs) = map label_of (filter (\<lambda>c. Q (label_of c)) cs)"
  by (induction cs) auto

lemma filter_all: "(\<And>x. x \<in> set xs \<Longrightarrow> P x) \<Longrightarrow> filter P xs = xs"
  by (induction xs) auto

text \<open>
  C3. Binding a list of callbacks under one key appends them to the sequence of the key
  in that order. Raise invokes the callbacks of a key in the order of its sequence: the
  labels that Raise runs, restricted to the labels of the key (no other key carries
  them), are a subsequence of the labels of the sequence, and they are the whole list
  when every callback of the key is still alive after the Raise. The callbacks that
  stay registered keep their order.
\<close>

theorem Raise_invokes_in_bind_order:
  assumes "distinct (map fst (b :: ('a, 'u) Binds))"
    and "\<forall>(k, v) \<in> set b. k \<noteq> t \<longrightarrow>
           (\<forall>c \<in> set v. label_of c \<notin> label_of ` set (sequence_of b t))"
    and "Raise moved args (b, w) = (b', w')"
  shows "sequence_of (foldl (\<lambda>b0 bound. InternalBind bound t b0) b0 bounds) t
           = sequence_of b0 t @ bounds \<and>
         subseq (filter (\<lambda>l. l \<in> label_of ` set (sequence_of b t)) (invoked_since w w'))
           (map label_of (sequence_of b t)) \<and>
         ((\<forall>c \<in> set (sequence_of b t). alive w' c) \<longrightarrow>
            filter (\<lambda>l. l \<in> label_of ` set (sequence_of b t)) (invoked_since w w')
              = map label_of (sequence_of b t)) \<and>
         subseq (sequence_of b' t) (sequence_of b t)"
proof -
  define cbs where "cbs = sequence_of b t"
  define P :: "('a, 'u) LifecycleCallback \<Rightarrow> bool"
    where "P = (\<lambda>c. label_of c \<in> label_of ` set cbs)"
  from Raise_unfold [OF assms(3)] obtain a' where loop: "Raise_loop moved b args w = (b', a', w')"
    by blast
  from Raise_loop_sandwich [OF loop] obtain delta where
    s: "trace w' = trace w @ delta"
       "subseq (map fst delta) (map label_of (filter (alive w) (callbacks b)))"
       "subseq (map label_of (filter (alive w') (callbacks b))) (map fst delta)"
    by blast
  have inv: "invoked_since w w' = map fst delta" by (rule invoked_since_append [OF s(1)])
  have key: "filter P (callbacks b) = filter P cbs"
    unfolding cbs_def by (rule filter_callbacks_key [OF assms(1)]) (use assms(2) in \<open>auto simp: P_def cbs_def\<close>)
  have all: "filter P cbs = cbs" by (rule filter_all) (simp add: P_def)
  have proj: "filter (\<lambda>l. l \<in> label_of ` set cbs) (map label_of (filter A (callbacks b)))
                = map label_of (filter A cbs)" for A
  proof -
    have "filter (\<lambda>l. l \<in> label_of ` set cbs) (map label_of (filter A (callbacks b)))
            = map label_of (filter P (filter A (callbacks b)))"
      by (simp only: filter_labels P_def)
    also have "filter P (filter A (callbacks b)) = filter A (filter P (callbacks b))"
      by (rule filter_swap)
    finally show ?thesis by (simp only: key all)
  qed
  have up: "subseq (filter (\<lambda>l. l \<in> label_of ` set cbs) (map fst delta)) (map label_of (filter (alive w) cbs))"
    using subseq_filter [OF s(2), of "\<lambda>l. l \<in> label_of ` set cbs"] by (simp only: proj)
  have lo: "subseq (map label_of (filter (alive w') cbs)) (filter (\<lambda>l. l \<in> label_of ` set cbs) (map fst delta))"
    using subseq_filter [OF s(3), of "\<lambda>l. l \<in> label_of ` set cbs"] by (simp only: proj)
  have "subseq (map label_of (filter (alive w) cbs)) (map label_of cbs)"
    by (rule subseq_map) simp
  with up have order: "subseq (filter (\<lambda>l. l \<in> label_of ` set cbs) (invoked_since w w')) (map label_of cbs)"
    unfolding inv by (rule subseq_order.trans)
  have exact: "(\<forall>c \<in> set cbs. alive w' c) \<longrightarrow>
      filter (\<lambda>l. l \<in> label_of ` set cbs) (invoked_since w w') = map label_of cbs"
  proof
    assume "\<forall>c \<in> set cbs. alive w' c"
    then have "filter (alive w') cbs = cbs" by (intro filter_all) simp
    with lo have "subseq (map label_of cbs) (filter (\<lambda>l. l \<in> label_of ` set cbs) (invoked_since w w'))"
      by (simp only: inv)
    with order show "filter (\<lambda>l. l \<in> label_of ` set cbs) (invoked_since w w') = map label_of cbs"
      by (rule subseq_order.antisym)
  qed
  have survivors: "subseq (sequence_of b' t) cbs"
  proof (cases "map_of b' t")
    case None
    then show ?thesis by (simp add: sequence_of_def)
  next
    case (Some v')
    then have "(t, v') \<in> set b'" by (rule map_of_SomeD)
    with Raise_loop_entries [OF loop] obtain v where
      v: "(t, v) \<in> set b" "subseq v' (filter (kept w) v)"
      by blast
    from assms(1) v(1) have "map_of b t = Some v" by (rule map_of_is_SomeI)
    then have "cbs = v" by (simp add: cbs_def sequence_of_def)
    moreover have "subseq v' v"
      using v(2) subseq_filter_left by (rule subseq_order.trans)
    ultimately show ?thesis using Some by (simp add: sequence_of_def)
  qed
  show ?thesis
    unfolding cbs_def [symmetric]
    by (intro conjI) (rule sequence_of_binds, rule order, rule exact, rule survivors)
qed

theorem Raise_invokes_in_bind_order_witness:
  "foldl (\<lambda>b0 bound. InternalBind bound 7 b0) [(9, [PtrMember 9 (Add 4) False])]
     [PtrMember 7 (Add 1) False, PtrCallback (Add 2) 7 True, PtrMember 7 (Add 3) False]
     = [(9, [PtrMember 9 (Add 4) False]),
        (7, [PtrMember 7 (Add 1) False, PtrCallback (Add 2) 7 True, PtrMember 7 (Add 3) False])] \<and>
   invoked_since world0 (snd (Raise moved_trivial 5
     ([(9, [PtrMember 9 (Add 4) False]),
       (7, [PtrMember 7 (Add 1) False, PtrCallback (Add 2) 7 True, PtrMember 7 (Add 3) False])],
      world0))) = [4, 1, 2, 3] \<and>
   filter (\<lambda>l. l \<in> {1, 2, 3}) (invoked_since world0 (snd (Raise moved_trivial 5
     ([(9, [PtrMember 9 (Add 4) False]),
       (7, [PtrMember 7 (Add 1) False, PtrCallback (Add 2) 7 True, PtrMember 7 (Add 3) False])],
      world0)))) = [1, 2, 3] \<and>
   map label_of (sequence_of (fst (Raise moved_trivial 5
     ([(9, [PtrMember 9 (Add 4) False]),
       (7, [PtrMember 7 (Add 1) False, PtrCallback (Add 2) 7 True, PtrMember 7 (Add 3) False])],
      world0))) 7) = [1, 3]"
  using Raise_invokes_in_bind_order
    [of "[(9, [PtrMember 9 (Add 4) False]),
          (7, [PtrMember 7 (Add 1) False, PtrCallback (Add 2) 7 True, PtrMember 7 (Add 3) False])]"
        7 moved_trivial 5 world0
        "fst (Raise moved_trivial 5
           ([(9, [PtrMember 9 (Add 4) False]),
             (7, [PtrMember 7 (Add 1) False, PtrCallback (Add 2) 7 True, PtrMember 7 (Add 3) False])],
            world0))"
        "snd (Raise moved_trivial 5
           ([(9, [PtrMember 9 (Add 4) False]),
             (7, [PtrMember 7 (Add 1) False, PtrCallback (Add 2) 7 True, PtrMember 7 (Add 3) False])],
            world0))"
        "[(9, [PtrMember 9 (Add 4) False])]"
        "[PtrMember 7 (Add 1) False, PtrCallback (Add 2) 7 True, PtrMember 7 (Add 3) False]"]
  by (simp add: sequence_of_def label_of_def Add_def invoked_since_def Raise_def call_def
      world0_def)

subsection \<open>The argument values the listeners receive\<close>

text \<open>
  When a move leaves the argument as it was (a trivially copyable type, a reference),
  every user callback that a Raise invokes receives the value passed to Raise.
\<close>

lemma erase_remove_if_same_args:
  shows "erase_remove_if (\<lambda>x. x) cbs args w = (rest, args', w') \<Longrightarrow>
     args' = args \<and> (\<exists>delta. trace w' = trace w @ delta \<and> snd ` set delta \<subseteq> {args})"
proof (induction cbs arbitrary: w rest args' w')
  case Nil
  then show ?case by simp
next
  case (Cons cb cbs)
  obtain al w1 where inv: "invoke cb args w = (al, w1)" by (cases "invoke cb args w")
  obtain r2 a2 w2 where rec: "erase_remove_if (\<lambda>x. x) cbs args w1 = (r2, a2, w2)"
    by (cases "erase_remove_if (\<lambda>x. x) cbs args w1")
  from Cons.prems inv rec have res: "args' = a2" "w' = w2" by auto
  from Cons.IH [OF rec] obtain d2 where
    ih: "a2 = args" "trace w2 = trace w1 @ d2" "snd ` set d2 \<subseteq> {args}"
    by blast
  have "\<exists>d1. trace w1 = trace w @ d1 \<and> snd ` set d1 \<subseteq> {args}"
    using inv by (auto simp: invoke_eq trace_call split: if_splits)
  then obtain d1 where d1: "trace w1 = trace w @ d1" "snd ` set d1 \<subseteq> {args}" by blast
  have "trace w' = trace w @ (d1 @ d2)" using d1(1) ih(2) res(2) by simp
  moreover have "snd ` set (d1 @ d2) \<subseteq> {args}" using d1(2) ih(3) by auto
  ultimately show ?case using res(1) ih(1) by blast
qed

lemma Raise_loop_same_args:
  shows "Raise_loop (\<lambda>x. x) b args w = (b', args', w') \<Longrightarrow>
     args' = args \<and> (\<exists>delta. trace w' = trace w @ delta \<and> snd ` set delta \<subseteq> {args})"
proof (induction b arbitrary: w b' args' w')
  case Nil
  then show ?case by simp
next
  case (Cons p its)
  obtain k v where p: "p = (k, v)" by (cases p)
  obtain fv a1 w1 where eri: "erase_remove_if (\<lambda>x. x) v args w = (fv, a1, w1)"
    by (cases "erase_remove_if (\<lambda>x. x) v args w")
  from erase_remove_if_same_args [OF eri] obtain d1 where
    h: "a1 = args" "trace w1 = trace w @ d1" "snd ` set d1 \<subseteq> {args}"
    by blast
  obtain its' a2 w2 where rec: "Raise_loop (\<lambda>x. x) its args w1 = (its', a2, w2)"
    by (cases "Raise_loop (\<lambda>x. x) its args w1")
  from Cons.prems p eri rec h(1) have res: "args' = a2" "w' = w2" by auto
  from Cons.IH [OF rec] obtain d2 where
    ih: "a2 = args" "trace w2 = trace w1 @ d2" "snd ` set d2 \<subseteq> {args}"
    by blast
  have "trace w' = trace w @ (d1 @ d2)" using h(2) ih(2) res(2) by simp
  moreover have "snd ` set (d1 @ d2) \<subseteq> {args}" using h(3) ih(3) by auto
  ultimately show ?case using res(1) ih(1) by blast
qed

lemma Raise_same_args_when_not_moved:
  assumes "\<And>x. moved x = x" and "Raise moved args (b, w) = (b', w')"
  shows "\<exists>delta. trace w' = trace w @ delta \<and> snd ` set delta \<subseteq> {args}"
proof -
  have m: "moved = (\<lambda>x. x)" by (rule ext) (rule assms(1))
  from Raise_unfold [OF assms(2)] obtain a' where "Raise_loop (\<lambda>x. x) b args w = (b', a', w')"
    unfolding m by blast
  from Raise_loop_same_args [OF this] show ?thesis by blast
qed

text \<open>
  C5. Raise forwards \<^verbatim>\<open>args\<close> to every callback with \<^verbatim>\<open>std::forward\<close>, so the first call
  moves from it. With two listeners and a \<^verbatim>\<open>std::unique_ptr<int>\<close> argument that points to
  7, the first listener receives the pointer and the second the null pointer. With an
  \<^verbatim>\<open>int\<close> argument both receive 7, as the test of the repository expects.
\<close>

theorem Raise_second_listener_receives_moved_from:
  "trace (snd (Raise moved_unique_ptr (Some 7)
     (Bind_standalone (Observe 2) False (Bind_standalone (Observe 1) False []),
      world0 :: (int option, int) world)))
     = [(1, Some 7), (2, None)] \<and>
   trace (snd (Raise moved_trivial 7
     (Bind_standalone (Observe 2) False (Bind_standalone (Observe 1) False []),
      world0 :: (int, int) world)))
     = [(1, 7), (2, 7)]"
  by (simp add: Bind_standalone_def Raise_def call_def Observe_def world0_def
      moved_unique_ptr_def moved_trivial_def)

end
